theory Spec2Isabelle
  imports Main "HOL-Library.Char_ord" "HOL-Library.List_Lexorder" "HOL-Library.Product_Lexorder"
    "HOL-Library.Multiset"
begin

section \<open>Objects and the object graph\<close>

text \<open>
  The renderer of \<^verbatim>\<open>pocketflow/mermaid.py\<close> only reads three things of an object: whether
  it is an instance of \<^verbatim>\<open>Flow\<close>, its \<^verbatim>\<open>start_node\<close> and its \<^verbatim>\<open>successors\<close> dictionary
  (and the class name, for labels). Objects are compared by \<^verbatim>\<open>id(obj)\<close> only, so an
  object is named by its identity, and the store lists the attributes of the objects that
  carry a \<^verbatim>\<open>successors\<close> attribute. An identity the store does not list stands for an
  object without that attribute that is no Flow: the code reads such an object through the
  defaults of \<^verbatim>\<open>getattr\<close>.

  A \<^verbatim>\<open>successors\<close> dictionary is the list of its items (action, next object or None); a
  key that occurs twice counts once, with its first value.
\<close>

type_synonym oid = nat

record obj =
  cls :: string
  is_flow :: bool
  start_node :: "oid option"
  successors :: "(string \<times> oid option) list"

type_synonym heap = "(oid \<times> obj) list"

type_synonym edge = "oid \<times> string \<times> oid"

definition plain_obj :: obj where
  "plain_obj = \<lparr>cls = ''object'', is_flow = False, start_node = None, successors = []\<rparr>"

definition obj_at :: "heap \<Rightarrow> oid \<Rightarrow> obj" where
  "obj_at h i = (case map_of h i of Some ob \<Rightarrow> ob | None \<Rightarrow> plain_obj)"

text \<open>\<^verbatim>\<open>hasattr(v, "successors")\<close>\<close>

definition has_successors :: "heap \<Rightarrow> oid \<Rightarrow> bool" where
  "has_successors h i = (map_of h i \<noteq> None)"

text \<open>\<^verbatim>\<open>isinstance(x, Flow)\<close>, and \<^verbatim>\<open>getattr(x, "start_node", None)\<close> of a Flow.\<close>

definition flow_at :: "heap \<Rightarrow> oid \<Rightarrow> bool" where
  "flow_at h i = is_flow (obj_at h i)"

definition start_of :: "heap \<Rightarrow> oid \<Rightarrow> oid option" where
  "start_of h i = start_node (obj_at h i)"

text \<open>\<^verbatim>\<open>_sort_keys(d)\<close>: the keys of a dictionary, sorted. Actions are strings, so the
  fallback of \<^verbatim>\<open>_sort_keys\<close> (sorting by \<^verbatim>\<open>str\<close>) is never taken.\<close>

definition sort_keys :: "(string \<times> 'v) list \<Rightarrow> string list" where
  "sort_keys d = sort (remdups (map fst d))"

text \<open>\<^verbatim>\<open>succ.get(act)\<close>: None for a missing key and for a stored None.\<close>

definition dict_get :: "(string \<times> 'v option) list \<Rightarrow> string \<Rightarrow> 'v option" where
  "dict_get d k = (case map_of d k of Some v \<Rightarrow> v | None \<Rightarrow> None)"

text \<open>The pairs (action, next) that the loop
  \<^verbatim>\<open>for act in _sort_keys(succ): if (nxt := succ.get(act)) is not None: ...\<close>
  visits, in its order.\<close>

definition out_edges :: "heap \<Rightarrow> oid \<Rightarrow> (string \<times> oid) list" where
  "out_edges h i =
     List.map_filter (\<lambda>act. map_option (Pair act) (dict_get (successors (obj_at h i)) act))
       (sort_keys (successors (obj_at h i)))"

section \<open>Python sets that are iterated\<close>

text \<open>
  A Python set is a list without repetitions, in insertion order. CPython iterates a set in
  the order of its hash table, which depends on the values (here object addresses and string
  hashes) and on the history of the set; the model takes that order as a parameter: a rank
  for every element, given the set. Every choice of ranks is an iteration order, and every
  iteration order is a choice of ranks.
\<close>

record set_order =
  oid_rank :: "oid list \<Rightarrow> oid \<Rightarrow> nat"
  edge_rank :: "edge list \<Rightarrow> edge \<Rightarrow> nat"

definition iter_oids :: "set_order \<Rightarrow> oid list \<Rightarrow> oid list" where
  "iter_oids so xs = sort_key (oid_rank so xs) xs"

definition iter_edges :: "set_order \<Rightarrow> edge list \<Rightarrow> edge list" where
  "iter_edges so xs = sort_key (edge_rank so xs) xs"

text \<open>\<^verbatim>\<open>s.add(x)\<close> and \<^verbatim>\<open>s |= t\<close>\<close>

definition set_add :: "'a \<Rightarrow> 'a list \<Rightarrow> 'a list" where
  "set_add x xs = (if x \<in> set xs then xs else xs @ [x])"

definition set_union :: "'a list \<Rightarrow> 'a list \<Rightarrow> 'a list" where
  "set_union xs ys = fold set_add ys xs"

section \<open>Errors and warnings\<close>

datatype error =
    ValueError string
  | RuntimeError string
  | AttributeError
  | KeyError

datatype warning =
    MissingNamespace
  | MultipleNames "string list"
  | MissingName string
  | NoResolvableStart

section \<open>Step 1: discovery of the nodes and edges\<close>

text \<open>
  The loop \<^verbatim>\<open>while queue\<close> of lines 99-119. \<^verbatim>\<open>visited\<close>, the keys of \<^verbatim>\<open>obj_by_id\<close> and
  \<^verbatim>\<open>visit_order\<close> are updated together (lines 106-108), so \<^verbatim>\<open>visit_order\<close> stands for
  the three.
\<close>

function discover_loop ::
  "heap \<Rightarrow> int \<Rightarrow> oid option list \<Rightarrow> oid list \<Rightarrow> edge list \<Rightarrow> error + (oid list \<times> edge list)"
where
  "discover_loop h max_nodes [] vo es = Inr (vo, es)"
| "discover_loop h max_nodes (None # q) vo es = discover_loop h max_nodes q vo es"
| "discover_loop h max_nodes (Some cid # q) vo es =
     (if cid \<in> set vo then discover_loop h max_nodes q vo es
      else if int (length (vo @ [cid])) > max_nodes then Inl (RuntimeError ''max_nodes exceeded'')
      else
        discover_loop h max_nodes
          ((if flow_at h cid \<and> start_of h cid \<noteq> None then q @ [start_of h cid] else q)
             @ map (\<lambda>(act, nxt). Some nxt) (out_edges h cid))
          (vo @ [cid])
          (fold (\<lambda>(act, nxt). set_add (cid, act, nxt)) (out_edges h cid) es))"
  by pat_completeness auto
termination
  by (relation "measures [\<lambda>(h, m, q, vo, es). nat (m + 1) - length vo,
                          \<lambda>(h, m, q, vo, es). length q]") auto

definition discover :: "heap \<Rightarrow> int \<Rightarrow> oid \<Rightarrow> error + (oid list \<times> edge list)" where
  "discover h max_nodes root = discover_loop h max_nodes [Some root] [] []"

text \<open>\<^verbatim>\<open>order_index_by_obj_id\<close> and \<^verbatim>\<open>mermaid_id_by_obj_id\<close> (lines 121-122); a subscript
  with a missing key raises KeyError, which is None here.\<close>

fun index_of :: "'a list \<Rightarrow> 'a \<Rightarrow> nat option" where
  "index_of [] x = None"
| "index_of (y # ys) x = (if x = y then Some 0 else map_option Suc (index_of ys x))"

fun digit_char :: "nat \<Rightarrow> char" where
  "digit_char n = char_of (48 + n)"

fun str_nat :: "nat \<Rightarrow> string" where
  "str_nat n = (if n < 10 then [digit_char n] else str_nat (n div 10) @ [digit_char (n mod 10)])"

definition order_index :: "oid list \<Rightarrow> oid \<Rightarrow> nat option" where
  "order_index vo i = index_of vo i"

definition mermaid_id :: "oid list \<Rightarrow> oid \<Rightarrow> string option" where
  "mermaid_id vo i = map_option (\<lambda>k. ''n'' @ str_nat k) (order_index vo i)"

section \<open>Step 2: the body of every flow\<close>

definition flow_ids :: "heap \<Rightarrow> oid list \<Rightarrow> oid list" where
  "flow_ids h vo = filter (flow_at h) vo"

text \<open>The loop \<^verbatim>\<open>while q\<close> of lines 134-142; \<^verbatim>\<open>seen\<close> and \<^verbatim>\<open>body\<close> receive the same
  identities.\<close>

function body_loop :: "heap \<Rightarrow> oid option list \<Rightarrow> oid list \<Rightarrow> oid list" where
  "body_loop h [] seen = seen"
| "body_loop h (None # q) seen = body_loop h q seen"
| "body_loop h (Some nid # q) seen =
     (if nid \<in> set seen then body_loop h q seen
      else body_loop h (q @ map (\<lambda>(act, nxt). Some nxt) (out_edges h nid)) (seen @ [nid]))"
  by pat_completeness auto

lemma out_edges_outside: "map_of h i = None \<Longrightarrow> out_edges h i = []"
  by (simp add: out_edges_def obj_at_def plain_obj_def sort_keys_def)

lemma card_keys_less:
  assumes "map_of h i \<noteq> None" "i \<notin> S"
  shows "card (fst ` set h - insert i S) < card (fst ` set h - S)"
proof -
  from assms(1) have "i \<in> fst ` set h"
    by (simp add: map_of_eq_None_iff)
  with assms(2) show ?thesis
    by (intro psubset_card_mono) auto
qed

lemma card_keys_le: "card (fst ` set h - insert i S) \<le> card (fst ` set h - S)"
  by (intro card_mono) auto

termination body_loop
proof (relation "measures [\<lambda>(h, q, seen). card (fst ` set h - set seen),
                           \<lambda>(h, q, seen). length q]", goal_cases)
  case 1
  show ?case by simp
next
  case (2 h q seen)
  show ?case by simp
next
  case (3 h nid q seen)
  show ?case by simp
next
  case (4 h nid q seen)
  show ?case
  proof (cases "map_of h nid")
    case None
    then show ?thesis
      using card_keys_le [of h nid "set seen"] by (auto simp: out_edges_outside)
  next
    case (Some ob)
    with 4 show ?thesis
      using card_keys_less [of h nid "set seen"] by simp
  qed
qed

definition body_of :: "heap \<Rightarrow> oid \<Rightarrow> oid list" where
  "body_of h fid = (case start_of h fid of None \<Rightarrow> [] | Some s \<Rightarrow> body_loop h [Some s] [])"

text \<open>\<^verbatim>\<open>body_by_flow_id.get(fid, set())\<close>\<close>

definition body_by_flow_id :: "heap \<Rightarrow> oid list \<Rightarrow> oid \<Rightarrow> oid list" where
  "body_by_flow_id h vo fid = (if fid \<in> set (flow_ids h vo) then body_of h fid else [])"

section \<open>Step 3: containment\<close>

text \<open>\<^verbatim>\<open>container_flow_by_node_id.setdefault(nid, fid)\<close> for every \<^verbatim>\<open>nid\<close> of a body.\<close>

definition claim_body :: "oid \<Rightarrow> oid list \<Rightarrow> (oid \<rightharpoonup> oid) \<Rightarrow> (oid \<rightharpoonup> oid)" where
  "claim_body fid nids m = fold (\<lambda>nid m. if m nid = None then m(nid \<mapsto> fid) else m) nids m"

definition container_flow_by_node_id :: "set_order \<Rightarrow> heap \<Rightarrow> oid list \<Rightarrow> (oid \<rightharpoonup> oid)" where
  "container_flow_by_node_id so h vo =
     fold (\<lambda>fid. claim_body fid (iter_oids so (body_by_flow_id h vo fid))) (flow_ids h vo) Map.empty"

definition parent_flow_by_flow_id :: "set_order \<Rightarrow> heap \<Rightarrow> oid list \<Rightarrow> (oid \<rightharpoonup> oid)" where
  "parent_flow_by_flow_id so h vo fid =
     (if fid \<in> set (flow_ids h vo) then
        (case container_flow_by_node_id so h vo fid of
           None \<Rightarrow> None
         | Some parent \<Rightarrow>
             if parent \<noteq> fid \<and> parent \<in> set vo \<and> flow_at h parent then Some parent else None)
      else None)"

section \<open>Step 4: real start, exit sources and the rewritten edges\<close>

function real_start_loop :: "heap \<Rightarrow> oid option \<Rightarrow> oid set \<Rightarrow> oid option" where
  "real_start_loop h None seen = None"
| "real_start_loop h (Some xid) seen =
     (if flow_at h xid \<and> start_of h xid \<noteq> None then
        (if xid \<in> seen then None
         else real_start_loop h (start_of h xid) (insert xid seen))
      else Some xid)"
  by pat_completeness auto

lemma flow_at_in_store: "flow_at h i \<Longrightarrow> map_of h i \<noteq> None"
  by (auto simp: flow_at_def obj_at_def plain_obj_def split: option.splits)

termination real_start_loop
  by (relation "measure (\<lambda>(h, x, seen). card (fst ` set h - seen))")
     (auto simp: card_keys_less flow_at_in_store)

definition real_start :: "heap \<Rightarrow> oid \<Rightarrow> oid option" where
  "real_start h fid = real_start_loop h (start_of h fid) {}"

definition is_expanded_flow :: "heap \<Rightarrow> oid \<Rightarrow> bool" where
  "is_expanded_flow h i = (flow_at h i \<and> start_of h i \<noteq> None \<and> real_start h i \<noteq> None)"

text \<open>\<^verbatim>\<open>_is_expanded_flow(obj_by_id.get(oid))\<close>: False for an identity that was not discovered.\<close>

definition is_expanded_known :: "heap \<Rightarrow> oid list \<Rightarrow> oid \<Rightarrow> bool" where
  "is_expanded_known h vo i = (i \<in> set vo \<and> is_expanded_flow h i)"

definition entry_oid :: "heap \<Rightarrow> oid \<Rightarrow> oid" where
  "entry_oid h i =
     (if is_expanded_flow h i then (case real_start h i of Some rs \<Rightarrow> rs | None \<Rightarrow> i) else i)"

record exit_state =
  exit_cache :: "oid \<rightharpoonup> oid list"
  exit_computing :: "oid set"

function leaves_loop :: "heap \<Rightarrow> oid option list \<Rightarrow> oid set \<Rightarrow> oid list \<Rightarrow> oid list" where
  "leaves_loop h [] seen leaves = leaves"
| "leaves_loop h (None # q) seen leaves = leaves_loop h q seen leaves"
| "leaves_loop h (Some nid # q) seen leaves =
     (if nid \<in> seen then leaves_loop h q seen leaves
      else if successors (obj_at h nid) \<noteq> [] then
        leaves_loop h (q @ map (\<lambda>(act, nxt). Some nxt) (out_edges h nid)) (insert nid seen) leaves
      else leaves_loop h q (insert nid seen) (set_add nid leaves))"
  by pat_completeness auto

lemma successors_in_store: "successors (obj_at h i) \<noteq> [] \<Longrightarrow> map_of h i \<noteq> None"
  by (auto simp: obj_at_def plain_obj_def split: option.splits)

termination leaves_loop
proof (relation "measures [\<lambda>(h, q, seen, leaves). card (fst ` set h - seen),
                           \<lambda>(h, q, seen, leaves). length q]", goal_cases)
  case 1
  show ?case by simp
next
  case (2 h q seen leaves)
  show ?case by simp
next
  case (3 h nid q seen leaves)
  show ?case by simp
next
  case (4 h nid q seen leaves)
  then show ?case
    using card_keys_less [of h nid seen] by (simp add: successors_in_store)
next
  case (5 h nid q seen leaves)
  then show ?case
    using card_keys_le [of h nid seen] by auto
qed

function exit_source_oids ::
    "set_order \<Rightarrow> heap \<Rightarrow> oid list \<Rightarrow> oid \<Rightarrow> exit_state \<Rightarrow> oid list \<times> exit_state"
  and exit_resolve ::
    "set_order \<Rightarrow> heap \<Rightarrow> oid list \<Rightarrow> oid list \<Rightarrow> oid list \<Rightarrow> exit_state \<Rightarrow> oid list \<times> exit_state"
where
  "exit_source_oids so h vo oid st =
     (if \<not> is_expanded_flow h oid then ([oid], st)
      else case exit_cache st oid of
        Some cached \<Rightarrow> (cached, st)
      | None \<Rightarrow>
          (case (if oid \<in> exit_computing st then real_start h oid else None) of
             Some rs \<Rightarrow> ([rs], st)
           | None \<Rightarrow>
               (case exit_resolve so h vo
                       (iter_oids so (leaves_loop h [start_of h oid] {} [])) []
                       (st\<lparr>exit_computing := insert oid (exit_computing st)\<rparr>) of
                  (resolved, st') \<Rightarrow>
                    let resolved' =
                          (case real_start h oid of
                             Some rs \<Rightarrow> if resolved = [] then set_add rs resolved else resolved
                           | None \<Rightarrow> resolved);
                        result = (if resolved' \<noteq> [] then resolved' else [oid])
                    in (result,
                        st'\<lparr>exit_cache := (exit_cache st')(oid \<mapsto> result),
                            exit_computing := exit_computing st' - {oid}\<rparr>))))"
| "exit_resolve so h vo [] resolved st = (resolved, st)"
| "exit_resolve so h vo (lid # lids) resolved st =
     (if lid \<notin> set vo then exit_resolve so h vo lids resolved st
      else if is_expanded_flow h lid then
        (case exit_source_oids so h vo lid st of
           (r, st') \<Rightarrow> exit_resolve so h vo lids (set_union resolved r) st')
      else exit_resolve so h vo lids (set_add lid resolved) st)"
  by pat_completeness auto


lemma exit_computing_kept:
  "exit_source_oids_exit_resolve_dom (Inl (so, h, vo, oid, st)) \<Longrightarrow>
     exit_computing (snd (exit_source_oids so h vo oid st)) = exit_computing st"
  "exit_source_oids_exit_resolve_dom (Inr (so, h, vo, lids, resolved, st)) \<Longrightarrow>
     exit_computing (snd (exit_resolve so h vo lids resolved st)) = exit_computing st"
proof (induct rule: exit_source_oids_exit_resolve.pinduct)
  case (1 so h vo oid st)
  show ?case
  proof (cases "is_expanded_flow h oid \<and> exit_cache st oid = None
                \<and> (if oid \<in> exit_computing st then real_start h oid else None) = None")
    case False
    then show ?thesis
      using 1(1) by (auto simp: exit_source_oids.psimps split: option.splits if_splits)
  next
    case True
    then have notin: "oid \<notin> exit_computing st"
      by (auto simp: is_expanded_flow_def split: if_splits)
    obtain resolved st' where r: "exit_resolve so h vo
        (iter_oids so (leaves_loop h [start_of h oid] {} [])) []
        (st\<lparr>exit_computing := insert oid (exit_computing st)\<rparr>) = (resolved, st')"
      by (cases "exit_resolve so h vo
        (iter_oids so (leaves_loop h [start_of h oid] {} [])) []
        (st\<lparr>exit_computing := insert oid (exit_computing st)\<rparr>)") auto
    from 1(2) True r have "exit_computing st' = insert oid (exit_computing st)"
      by auto
    with notin True r show ?thesis
      using 1(1) by (auto simp: exit_source_oids.psimps Let_def)
  qed
next
  case (2 so h vo resolved st)
  then show ?case by (simp add: exit_resolve.psimps)
next
  case (3 so h vo lid lids resolved st)
  show ?case
  proof (cases "lid \<in> set vo \<and> is_expanded_flow h lid")
    case False
    then show ?thesis
      using 3(1,2,5) by (auto simp: exit_resolve.psimps)
  next
    case True
    obtain r st' where r: "exit_source_oids so h vo lid st = (r, st')"
      by (cases "exit_source_oids so h vo lid st") auto
    with True 3(3) have "exit_computing st' = exit_computing st" by auto
    moreover from True r 3(4) have
      "exit_computing (snd (exit_resolve so h vo lids (set_union resolved r) st')) = exit_computing st'"
      by auto
    ultimately show ?thesis
      using True r 3(1) by (simp add: exit_resolve.psimps)
  qed
qed

text \<open>Every call of \<^verbatim>\<open>_exit_source_oids\<close> returns: the call tree is well-founded, whatever
  the graph, its cycles and the state of the cache and of the in-progress set.\<close>

lemma exit_source_oids_terminates: "All exit_source_oids_exit_resolve_dom"
proof (relation "measures [\<lambda>x. case x of
                               Inl (so, h, vo, oid, st) \<Rightarrow> card (fst ` set h - exit_computing st)
                             | Inr (so, h, vo, lids, resolved, st) \<Rightarrow> card (fst ` set h - exit_computing st),
                           \<lambda>x. case x of
                               Inl (so, h, vo, oid, st) \<Rightarrow> 0
                             | Inr (so, h, vo, lids, resolved, st) \<Rightarrow> Suc (length lids)]", goal_cases)
  case 1
  show ?case by simp
next
  case (2 so h vo oid st)
  then have "oid \<notin> exit_computing st" "map_of h oid \<noteq> None"
    by (auto simp: is_expanded_flow_def flow_at_in_store split: if_splits)
  then show ?case
    using card_keys_less [of h oid "exit_computing st"] by simp
next
  case (3 so h vo lid lids resolved st)
  show ?case by simp
next
  case (4 so h vo lid lids resolved st)
  show ?case by simp
next
  case (5 so h vo lid lids resolved st x y)
  from 5(4) have "exit_computing (snd (exit_source_oids so h vo lid st)) = exit_computing st"
    by (rule exit_computing_kept(1))
  with 5(3) show ?case
    by (simp flip: 5(3))
next
  case (6 so h vo lid lids resolved st)
  show ?case by simp
qed

termination exit_source_oids
  by (rule exit_source_oids_terminates)

text \<open>The loop of lines 231-239. An edge with an endpoint that was not discovered is
  skipped (\<^verbatim>\<open>obj_by_id.get\<close> gives None).\<close>

fun rewrite_loop ::
  "set_order \<Rightarrow> heap \<Rightarrow> oid list \<Rightarrow> edge list \<Rightarrow> edge list \<Rightarrow> exit_state \<Rightarrow> edge list \<times> exit_state"
where
  "rewrite_loop so h vo [] res st = (res, st)"
| "rewrite_loop so h vo ((src, act, tgt) # es) res st =
     (if src \<notin> set vo \<or> tgt \<notin> set vo then rewrite_loop so h vo es res st
      else case exit_source_oids so h vo src st of
        (xs, st') \<Rightarrow>
          rewrite_loop so h vo es
            (fold (\<lambda>s. set_add (s, act, entry_oid h tgt)) (iter_oids so xs) res) st')"

definition exit_state0 :: exit_state where
  "exit_state0 = \<lparr>exit_cache = Map.empty, exit_computing = {}\<rparr>"

definition render_edges :: "set_order \<Rightarrow> heap \<Rightarrow> oid list \<Rightarrow> edge list \<Rightarrow> edge list" where
  "render_edges so h vo es = fst (rewrite_loop so h vo (iter_edges so es) [] exit_state0)"

text \<open>The generator \<^verbatim>\<open>_ancestors\<close> (lines 244-250), as the list of what it yields.\<close>

function ancestors_loop ::
  "set_order \<Rightarrow> heap \<Rightarrow> oid list \<Rightarrow> oid option \<Rightarrow> oid set \<Rightarrow> oid option list"
where
  "ancestors_loop so h vo None seen = [None]"
| "ancestors_loop so h vo (Some fid) seen =
     (if fid \<in> seen then [None]
      else Some fid #
        ancestors_loop so h vo (parent_flow_by_flow_id so h vo fid) (insert fid seen))"
  by pat_completeness auto

lemma parent_flow_known:
  "parent_flow_by_flow_id so h vo fid = Some p \<Longrightarrow> fid \<in> set vo"
  by (auto simp: parent_flow_by_flow_id_def flow_ids_def split: if_splits)

lemma card_diff_insert_less:
  "finite A \<Longrightarrow> x \<in> A \<Longrightarrow> x \<notin> S \<Longrightarrow> card (A - insert x S) < card (A - S)"
  by (intro psubset_card_mono) auto

lemma card_diff_insert_le: "finite A \<Longrightarrow> card (A - insert x S) \<le> card (A - S)"
  by (intro card_mono) auto

termination ancestors_loop
proof (relation "measures [\<lambda>(so, h, vo, x, seen). card (set vo - seen),
                           \<lambda>(so, h, vo, x, seen). (case x of None \<Rightarrow> 0 | Some _ \<Rightarrow> 1)]",
       goal_cases)
  case 1
  show ?case by simp
next
  case (2 so h vo fid seen)
  show ?case
  proof (cases "parent_flow_by_flow_id so h vo fid")
    case None
    then show ?thesis
      using card_diff_insert_le [of "set vo" fid seen] by auto
  next
    case (Some p)
    then have "fid \<in> set vo" by (rule parent_flow_known)
    with 2 show ?thesis
      using card_diff_insert_less [of "set vo" fid seen] by simp
  qed
qed

definition ancestors :: "set_order \<Rightarrow> heap \<Rightarrow> oid list \<Rightarrow> oid option \<Rightarrow> oid option list" where
  "ancestors so h vo container_fid = ancestors_loop so h vo container_fid {}"

definition edge_container :: "set_order \<Rightarrow> heap \<Rightarrow> oid list \<Rightarrow> oid \<Rightarrow> oid \<Rightarrow> oid option" where
  "edge_container so h vo src tgt =
     (let tgt_anc = set (ancestors so h vo (container_flow_by_node_id so h vo tgt)) in
      case List.find (\<lambda>c. c \<in> tgt_anc) (ancestors so h vo (container_flow_by_node_id so h vo src)) of
        Some c \<Rightarrow> c
      | None \<Rightarrow> None)"

text \<open>\<^verbatim>\<open>edges_by_container.setdefault(c, []).append(e)\<close>\<close>

fun bucket_append :: "'k \<Rightarrow> 'v \<Rightarrow> ('k \<times> 'v list) list \<Rightarrow> ('k \<times> 'v list) list" where
  "bucket_append k v [] = [(k, [v])]"
| "bucket_append k v ((k', vs) # bs) =
     (if k = k' then (k', vs @ [v]) # bs else (k', vs) # bucket_append k v bs)"

definition group_edges ::
  "set_order \<Rightarrow> heap \<Rightarrow> oid list \<Rightarrow> edge list \<Rightarrow> (oid option \<times> edge list) list" where
  "group_edges so h vo res =
     fold (\<lambda>(s, act, t). bucket_append (edge_container so h vo s t) (s, act, t))
       (iter_edges so res) []"

text \<open>\<^verbatim>\<open>sorted(xs, key=k)\<close> where computing a key may raise KeyError: Python computes all
  the keys first, then sorts stably.\<close>

definition sorted_by :: "('a \<Rightarrow> ('k::linorder) option) \<Rightarrow> 'a list \<Rightarrow> error + 'a list" where
  "sorted_by key xs =
     (case those (map key xs) of
        None \<Rightarrow> Inl KeyError
      | Some ks \<Rightarrow> Inr (map snd (sort_key fst (zip ks xs))))"

definition edge_key :: "oid list \<Rightarrow> edge \<Rightarrow> (nat \<times> string \<times> nat) option" where
  "edge_key vo e =
     (case e of (s, act, t) \<Rightarrow>
        (case order_index vo s of
           None \<Rightarrow> None
         | Some i \<Rightarrow> (case order_index vo t of None \<Rightarrow> None | Some j \<Rightarrow> Some (i, act, j))))"

fun sort_buckets ::
  "oid list \<Rightarrow> (oid option \<times> edge list) list \<Rightarrow> error + (oid option \<times> edge list) list" where
  "sort_buckets vo [] = Inr []"
| "sort_buckets vo ((c, es) # bs) =
     (case sorted_by (edge_key vo) es of
        Inl e \<Rightarrow> Inl e
      | Inr es' \<Rightarrow>
          (case sort_buckets vo bs of Inl e \<Rightarrow> Inl e | Inr bs' \<Rightarrow> Inr ((c, es') # bs')))"

definition edges_by_container ::
  "set_order \<Rightarrow> heap \<Rightarrow> oid list \<Rightarrow> edge list \<Rightarrow> error + (oid option \<times> edge list) list" where
  "edges_by_container so h vo res = sort_buckets vo (group_edges so h vo res)"

section \<open>Step 5: rendering\<close>

definition backslash :: char where "backslash = CHR 0x5C"
definition dquote :: char where "dquote = CHR 0x22"
definition newline :: char where "newline = CHR 0x0A"
definition fence :: string where "fence = [CHR 0x60, CHR 0x60, CHR 0x60]"

definition replace_char :: "char \<Rightarrow> string \<Rightarrow> string \<Rightarrow> string" where
  "replace_char c r s = concat (map (\<lambda>x. if x = c then r else [x]) s)"

definition escape :: "string \<Rightarrow> bool \<Rightarrow> string" where
  "escape s is_edge =
     (let s1 = replace_char backslash [backslash, backslash] s in
      if is_edge then replace_char (CHR ''|'') [backslash, CHR ''|''] s1
      else replace_char dquote [backslash, dquote] s1)"

text \<open>\<^verbatim>\<open>names_by_obj_id\<close> (line 67): a dictionary comprehension, so of two names of one
  object the later one stays.\<close>

definition names_by_obj_id :: "heap \<Rightarrow> (string \<times> oid) list \<Rightarrow> (oid \<rightharpoonup> string list)" where
  "names_by_obj_id h ns =
     fold (\<lambda>(k, v) m. if has_successors h v then m(v \<mapsto> [k]) else m) ns Map.empty"

record ctx =
  c_so :: set_order
  c_heap :: heap
  c_vo :: "oid list"
  c_names :: "oid \<rightharpoonup> string list"
  c_show_default :: bool
  c_buckets :: "(oid option \<times> edge list) list"

record rstate =
  lines :: "string list"
  label_cache :: "oid \<rightharpoonup> string"
  warned_multi_names :: "oid set"
  warned_missing_names :: "oid set"
  unnamed_counter_by_class :: "string \<rightharpoonup> nat"
  warnings :: "warning list"
  rendered_flows :: "oid set"
  rendering_stack :: "oid set"

definition container_of :: "ctx \<Rightarrow> oid \<Rightarrow> oid option" where
  "container_of c i = container_flow_by_node_id (c_so c) (c_heap c) (c_vo c) i"

definition label_for :: "ctx \<Rightarrow> oid \<Rightarrow> rstate \<Rightarrow> string \<times> rstate" where
  "label_for c i st =
     (case label_cache st i of
        Some l \<Rightarrow> (l, st)
      | None \<Rightarrow>
          (let names = (case c_names c i of Some ns \<Rightarrow> ns | None \<Rightarrow> []) in
           case sort names of
             l # _ \<Rightarrow>
               let st1 = (if length names > 1 \<and> i \<notin> warned_multi_names st
                          then st\<lparr>warned_multi_names := insert i (warned_multi_names st),
                                  warnings := warnings st @ [MultipleNames (sort names)]\<rparr>
                          else st)
               in (l, st1\<lparr>label_cache := (label_cache st1)(i \<mapsto> l)\<rparr>)
           | [] \<Rightarrow>
               let cl = cls (obj_at (c_heap c) i);
                   st1 = (if i \<notin> warned_missing_names st
                          then st\<lparr>warned_missing_names := insert i (warned_missing_names st),
                                  warnings := warnings st @ [MissingName cl]\<rparr>
                          else st);
                   n = (case unnamed_counter_by_class st1 cl of Some k \<Rightarrow> k | None \<Rightarrow> 0) + 1;
                   st2 = st1\<lparr>unnamed_counter_by_class := (unnamed_counter_by_class st1)(cl \<mapsto> n)\<rparr>;
                   l = (if n = 1 then cl else cl @ ''#'' @ str_nat n)
               in (l, st2\<lparr>label_cache := (label_cache st2)(i \<mapsto> l)\<rparr>)))"

definition node_def :: "ctx \<Rightarrow> oid \<Rightarrow> rstate \<Rightarrow> error + (string \<times> rstate)" where
  "node_def c i st =
     (case mermaid_id (c_vo c) i of
        None \<Rightarrow> Inl KeyError
      | Some m \<Rightarrow>
          (case label_for c i st of
             (l, st') \<Rightarrow> Inr (m @ ''['' @ [dquote] @ escape l False @ [dquote] @ '']'', st')))"

definition edge_line :: "ctx \<Rightarrow> edge \<Rightarrow> error + string" where
  "edge_line c e =
     (case e of (src, act, tgt) \<Rightarrow>
        (case mermaid_id (c_vo c) src of
           None \<Rightarrow> Inl KeyError
         | Some s \<Rightarrow>
             (case mermaid_id (c_vo c) tgt of
                None \<Rightarrow> Inl KeyError
              | Some t \<Rightarrow>
                  Inr (if act = ''default'' \<and> \<not> c_show_default c then s @ '' --> '' @ t
                       else s @ '' -->|'' @ escape act True @ ''| '' @ t))))"

fun emit_nodes :: "ctx \<Rightarrow> string \<Rightarrow> oid list \<Rightarrow> rstate \<Rightarrow> error + rstate" where
  "emit_nodes c indent [] st = Inr st"
| "emit_nodes c indent (i # rest) st =
     (case node_def c i st of
        Inl e \<Rightarrow> Inl e
      | Inr (d, st') \<Rightarrow> emit_nodes c indent rest (st'\<lparr>lines := lines st' @ [indent @ d]\<rparr>))"

fun emit_edges :: "ctx \<Rightarrow> string \<Rightarrow> edge list \<Rightarrow> rstate \<Rightarrow> error + rstate" where
  "emit_edges c indent [] st = Inr st"
| "emit_edges c indent (e # rest) st =
     (case edge_line c e of
        Inl err \<Rightarrow> Inl err
      | Inr l \<Rightarrow> emit_edges c indent rest (st\<lparr>lines := lines st @ [indent @ l]\<rparr>))"

text \<open>\<^verbatim>\<open>edges_by_container.get(c, [])\<close>\<close>

definition bucket :: "ctx \<Rightarrow> oid option \<Rightarrow> edge list" where
  "bucket c k = (case map_of (c_buckets c) k of Some es \<Rightarrow> es | None \<Rightarrow> [])"

text \<open>\<^verbatim>\<open>expanded_flow_ids\<close> (line 241), as its membership test.\<close>

definition expanded_flow_ids :: "ctx \<Rightarrow> oid \<Rightarrow> bool" where
  "expanded_flow_ids c i = (i \<in> set (flow_ids (c_heap c) (c_vo c)) \<and> is_expanded_flow (c_heap c) i)"

text \<open>The two sorted lists of lines 296-301.\<close>

definition child_flow_ids :: "ctx \<Rightarrow> oid \<Rightarrow> error + oid list" where
  "child_flow_ids c fid =
     sorted_by (order_index (c_vo c))
       (filter (\<lambda>nid. nid \<in> set (c_vo c) \<and> flow_at (c_heap c) nid \<and> expanded_flow_ids c nid
                      \<and> container_of c nid = Some fid)
          (iter_oids (c_so c) (body_by_flow_id (c_heap c) (c_vo c) fid)))"

definition own_nodes :: "ctx \<Rightarrow> oid \<Rightarrow> error + oid list" where
  "own_nodes c fid =
     sorted_by (order_index (c_vo c))
       (filter (\<lambda>nid. \<not> is_expanded_known (c_heap c) (c_vo c) nid \<and> container_of c nid = Some fid)
          (iter_oids (c_so c) (body_by_flow_id (c_heap c) (c_vo c) fid)))"

text \<open>The line that opens the block of a flow (line 292).\<close>

definition subgraph_line :: "string \<Rightarrow> string \<Rightarrow> string \<Rightarrow> string" where
  "subgraph_line indent mid l = indent @ ''subgraph subflow_'' @ mid @ ''['' @ escape l False @ '']''"

function render_flow :: "ctx \<Rightarrow> oid \<Rightarrow> string \<Rightarrow> rstate \<Rightarrow> error + rstate"
  and render_children :: "ctx \<Rightarrow> oid list \<Rightarrow> string \<Rightarrow> rstate \<Rightarrow> error + rstate"
where
  "render_flow c fid indent st =
     (if fid \<in> rendering_stack st then Inr st
      else case mermaid_id (c_vo c) fid of
        None \<Rightarrow> Inl KeyError
      | Some mid \<Rightarrow>
          (case label_for c fid (st\<lparr>rendering_stack := insert fid (rendering_stack st)\<rparr>) of
             (l, st1) \<Rightarrow>
               (case child_flow_ids c fid of
                  Inl e \<Rightarrow> Inl e
                | Inr children \<Rightarrow>
                    (case own_nodes c fid of
                       Inl e \<Rightarrow> Inl e
                     | Inr nodes \<Rightarrow>
                         (case emit_nodes c (indent @ ''  '') nodes
                                 (st1\<lparr>lines := lines st1 @
                                    [subgraph_line indent mid l]\<rparr>) of
                            Inl e \<Rightarrow> Inl e
                          | Inr st2 \<Rightarrow>
                              (case render_children c children (indent @ ''  '') st2 of
                                 Inl e \<Rightarrow> Inl e
                               | Inr st3 \<Rightarrow>
                                   (case emit_edges c (indent @ ''  '') (bucket c (Some fid)) st3 of
                                      Inl e \<Rightarrow> Inl e
                                    | Inr st4 \<Rightarrow>
                                        Inr (st4\<lparr>lines := lines st4 @ [indent @ ''end''],
                                                 rendered_flows := insert fid (rendered_flows st4),
                                                 rendering_stack := rendering_stack st4 - {fid}\<rparr>))))))))"
| "render_children c [] indent st = Inr st"
| "render_children c (x # xs) indent st =
     (case render_flow c x indent st of
        Inl e \<Rightarrow> Inl e
      | Inr st' \<Rightarrow> render_children c xs indent st')"
  by pat_completeness auto



lemma label_for_stack: "rendering_stack (snd (label_for c i st)) = rendering_stack st"
  by (simp add: label_for_def Let_def split: option.split list.split)

lemma node_def_stack: "node_def c i st = Inr (d, st') \<Longrightarrow> rendering_stack st' = rendering_stack st"
  using label_for_stack [of c i st]
  by (auto simp: node_def_def split: option.splits prod.splits)


lemma emit_nodes_stack:
  "emit_nodes c indent xs st = Inr st' \<Longrightarrow> rendering_stack st' = rendering_stack st"
proof (induction xs arbitrary: st)
  case Nil
  then show ?case by simp
next
  case (Cons i rest)
  from Cons.prems obtain d st1 where
    a: "node_def c i st = Inr (d, st1)" and
    b: "emit_nodes c indent rest (st1\<lparr>lines := lines st1 @ [indent @ d]\<rparr>) = Inr st'"
    by (auto split: sum.splits)
  from Cons.IH [OF b] node_def_stack [OF a] show ?case by simp
qed

lemma emit_edges_stack:
  "emit_edges c indent es st = Inr st' \<Longrightarrow> rendering_stack st' = rendering_stack st"
proof (induction es arbitrary: st)
  case Nil
  then show ?case by simp
next
  case (Cons e rest)
  from Cons.prems obtain l where
    b: "emit_edges c indent rest (st\<lparr>lines := lines st @ [indent @ l]\<rparr>) = Inr st'"
    by (auto split: sum.splits)
  from Cons.IH [OF b] show ?case by simp
qed


lemma render_stack_kept:
  "render_flow_render_children_dom (Inl (c, fid, indent, st)) \<Longrightarrow>
     render_flow c fid indent st = Inr st' \<Longrightarrow> rendering_stack st' = rendering_stack st"
  "render_flow_render_children_dom (Inr (c, xs, indent, st)) \<Longrightarrow>
     render_children c xs indent st = Inr st' \<Longrightarrow> rendering_stack st' = rendering_stack st"
proof (induct arbitrary: st' and st' rule: render_flow_render_children.pinduct)
  case (1 c fid indent st)
  note eq = render_flow.psimps [OF 1(1)]
  show ?case
  proof (cases "fid \<in> rendering_stack st")
    case True
    with 1(3) show ?thesis by (simp add: eq)
  next
    case False
    from 1(3) False obtain mid l st1 children nodes st2 st3 st4 where
      mid: "mermaid_id (c_vo c) fid = Some mid" and
      lab: "label_for c fid (st\<lparr>rendering_stack := insert fid (rendering_stack st)\<rparr>) = (l, st1)" and
      ch: "child_flow_ids c fid = Inr children" and
      no: "own_nodes c fid = Inr nodes" and
      en: "emit_nodes c (indent @ ''  '') nodes
             (st1\<lparr>lines := lines st1 @
                [subgraph_line indent mid l]\<rparr>) = Inr st2" and
      rc: "render_children c children (indent @ ''  '') st2 = Inr st3" and
      ee: "emit_edges c (indent @ ''  '') (bucket c (Some fid)) st3 = Inr st4" and
      res: "st' = st4\<lparr>lines := lines st4 @ [indent @ ''end''],
                        rendered_flows := insert fid (rendered_flows st4),
                        rendering_stack := rendering_stack st4 - {fid}\<rparr>"
      unfolding eq by (auto split: option.splits prod.splits sum.splits)
    have "rendering_stack st1 = insert fid (rendering_stack st)"
      using label_for_stack [of c fid "st\<lparr>rendering_stack := insert fid (rendering_stack st)\<rparr>"] lab
      by simp
    then have "rendering_stack st2 = insert fid (rendering_stack st)"
      using emit_nodes_stack [OF en] by simp
    moreover have "rendering_stack st3 = rendering_stack st2"
      using 1(2) [OF False mid lab [symmetric] ch no en rc] .
    moreover have "rendering_stack st4 = rendering_stack st3"
      using emit_edges_stack [OF ee] .
    ultimately show ?thesis
      using False res by auto
  qed
next
  case (2 c indent st)
  then show ?case by (simp add: render_children.psimps)
next
  case (3 c x xs indent st)
  from 3(1,4) obtain st1 where
    a: "render_flow c x indent st = Inr st1" and b: "render_children c xs indent st1 = Inr st'"
    by (auto simp: render_children.psimps split: sum.splits)
  from 3(2) [OF a] 3(3) [OF a b] show ?case by simp
qed


lemma index_of_known: "index_of xs x = Some k \<Longrightarrow> x \<in> set xs"
  by (induction xs arbitrary: k) (auto split: if_splits)

text \<open>Every call of \<^verbatim>\<open>_render_flow\<close> returns (with its lines, or with an exception),
  whatever the containment mapping.\<close>

lemma render_flow_terminates: "All render_flow_render_children_dom"
proof (relation "measures [\<lambda>x. case x of
                               Inl (c, fid, indent, st) \<Rightarrow> card (set (c_vo c) - rendering_stack st)
                             | Inr (c, xs, indent, st) \<Rightarrow> card (set (c_vo c) - rendering_stack st),
                           \<lambda>x. case x of
                               Inl (c, fid, indent, st) \<Rightarrow> 0
                             | Inr (c, xs, indent, st) \<Rightarrow> Suc (length xs)]", goal_cases)
  case 1
  show ?case by simp
next
  case (2 c fid indent st mid l st1 children nodes st2)
  have "fid \<in> set (c_vo c)"
    using 2(2) by (auto simp: mermaid_id_def order_index_def index_of_known)
  moreover have "rendering_stack st1 = insert fid (rendering_stack st)"
    using label_for_stack [of c fid "st\<lparr>rendering_stack := insert fid (rendering_stack st)\<rparr>"]
    by (simp flip: 2(3))
  then have "rendering_stack st2 = insert fid (rendering_stack st)"
    using emit_nodes_stack [OF 2(6)] by simp
  ultimately show ?case
    using 2(1) card_diff_insert_less [of "set (c_vo c)" fid "rendering_stack st"] by simp
next
  case (3 c x xs indent st)
  show ?case by simp
next
  case (4 c x xs indent st st1)
  from render_stack_kept(1) [OF 4(2) 4(1)] show ?case
    by simp
qed

termination render_flow
  by (rule render_flow_terminates)

text \<open>The loop of lines 317-319 over the flows other than the root.\<close>

fun render_top_flows :: "ctx \<Rightarrow> oid \<Rightarrow> oid list \<Rightarrow> rstate \<Rightarrow> error + rstate" where
  "render_top_flows c root_fid [] st = Inr st"
| "render_top_flows c root_fid (fid # rest) st =
     (if fid \<noteq> root_fid \<and> expanded_flow_ids c fid \<and> container_of c fid = None
         \<and> fid \<notin> rendered_flows st
      then (case render_flow c fid ''  '' st of
              Inl e \<Rightarrow> Inl e
            | Inr st' \<Rightarrow> render_top_flows c root_fid rest st')
      else render_top_flows c root_fid rest st)"

text \<open>The node declarations of lines 321-323.\<close>

definition top_nodes :: "ctx \<Rightarrow> oid list" where
  "top_nodes c =
     filter (\<lambda>i. \<not> is_expanded_known (c_heap c) (c_vo c) i \<and> container_of c i = None) (c_vo c)"

text \<open>The loop of lines 330-335: the highlighted identities and the warnings.\<close>

fun highlight_loop :: "ctx \<Rightarrow> oid list \<Rightarrow> oid list \<Rightarrow> rstate \<Rightarrow> error + (oid list \<times> rstate)" where
  "highlight_loop c [] hl st = Inr (hl, st)"
| "highlight_loop c (fid # rest) hl st =
     (if fid \<notin> set (c_vo c) then Inl KeyError
      else case real_start (c_heap c) fid of
        None \<Rightarrow> highlight_loop c rest hl (st\<lparr>warnings := warnings st @ [NoResolvableStart]\<rparr>)
      | Some rs \<Rightarrow>
          if mermaid_id (c_vo c) rs \<noteq> None then highlight_loop c rest (set_add rs hl) st
          else highlight_loop c rest hl (st\<lparr>warnings := warnings st @ [NoResolvableStart]\<rparr>))"

fun emit_classes :: "ctx \<Rightarrow> oid list \<Rightarrow> rstate \<Rightarrow> error + rstate" where
  "emit_classes c [] st = Inr st"
| "emit_classes c (rid # rest) st =
     (case mermaid_id (c_vo c) rid of
        None \<Rightarrow> Inl KeyError
      | Some m \<Rightarrow>
          emit_classes c rest (st\<lparr>lines := lines st @ [''  class '' @ m @ '' pf_true_start'']\<rparr>))"

definition highlight :: "ctx \<Rightarrow> rstate \<Rightarrow> error + rstate" where
  "highlight c st =
     (case highlight_loop c (flow_ids (c_heap c) (c_vo c)) [] st of
        Inl e \<Rightarrow> Inl e
      | Inr (hl, st1) \<Rightarrow>
          if hl = [] then Inr st1
          else (case sorted_by (order_index (c_vo c)) (iter_oids (c_so c) hl) of
                  Inl e \<Rightarrow> Inl e
                | Inr rids \<Rightarrow>
                    emit_classes c rids
                      (st1\<lparr>lines := lines st1 @
                        [''  classDef pf_true_start stroke:#d33,stroke-width:3px,fill:#fff5f5;'']\<rparr>)))"

section \<open>The arguments and the whole call\<close>

text \<open>A Python value as \<^verbatim>\<open>direction\<close> and \<^verbatim>\<open>max_nodes\<close> can receive it: None, a string, or
  an integer (a bool counts as the integer it is).\<close>

datatype pyval = PNone | PStr string | PInt int

record options =
  direction :: pyval
  show_default :: bool
  highlight_starts :: bool
  max_nodes :: pyval

text \<open>\<^verbatim>\<open>str.upper\<close> on the ASCII letters. A string with a character outside ASCII is not
  one of the five directions before or after \<^verbatim>\<open>upper\<close>, so what \<^verbatim>\<open>upper\<close> does to such a
  character is never seen.\<close>

definition upper_char :: "char \<Rightarrow> char" where
  "upper_char ch =
     (if (97::nat) \<le> of_char ch \<and> (of_char ch :: nat) \<le> 122
      then char_of ((of_char ch :: nat) - 32) else ch)"

definition upper :: "string \<Rightarrow> string" where
  "upper s = map upper_char s"

text \<open>\<^verbatim>\<open>(direction or "LR").upper()\<close>: None, the empty string and 0 are falsy; an integer
  has no \<^verbatim>\<open>upper\<close>.\<close>

definition direction_u :: "pyval \<Rightarrow> error + string" where
  "direction_u d =
     (case d of
        PNone \<Rightarrow> Inr (upper ''LR'')
      | PStr s \<Rightarrow> Inr (upper (if s = [] then ''LR'' else s))
      | PInt n \<Rightarrow> if n = 0 then Inr (upper ''LR'') else Inl AttributeError)"

definition rstate0 :: "warning list \<Rightarrow> string list \<Rightarrow> rstate" where
  "rstate0 ws ls =
     \<lparr>lines = ls, label_cache = Map.empty, warned_multi_names = {}, warned_missing_names = {},
      unnamed_counter_by_class = Map.empty, warnings = ws, rendered_flows = {},
      rendering_stack = {}\<rparr>"

definition join_lines :: "string list \<Rightarrow> string" where
  "join_lines ls = (case ls of [] \<Rightarrow> [] | l # rest \<Rightarrow> l @ concat (map (\<lambda>x. newline # x) rest))"

text \<open>The first three lines (lines 267-272): the fence, the header and the start marker.\<close>

definition header_lines :: "string \<Rightarrow> string \<Rightarrow> string list" where
  "header_lines dir_u m =
     [fence @ ''mermaid'', ''flowchart '' @ dir_u, ''  start((Start)) --> '' @ m]"

text \<open>Step 5 (lines 267-342), given the tables of steps 1 to 4.\<close>

definition render :: "ctx \<Rightarrow> oid \<Rightarrow> string \<Rightarrow> bool \<Rightarrow> warning list \<Rightarrow> error + rstate" where
  "render c root dir_u hl ws =
     (case mermaid_id (c_vo c)
             (if is_expanded_flow (c_heap c) root
              then (case real_start (c_heap c) root of Some rs \<Rightarrow> rs | None \<Rightarrow> root)
              else root) of
        None \<Rightarrow> Inl KeyError
      | Some m \<Rightarrow>
          (case (if expanded_flow_ids c root
                 then render_flow c root ''  ''
                        (rstate0 ws (header_lines dir_u m))
                 else Inr (rstate0 ws (header_lines dir_u m))) of
             Inl e \<Rightarrow> Inl e
           | Inr st1 \<Rightarrow>
               (case render_top_flows c root (flow_ids (c_heap c) (c_vo c)) st1 of
                  Inl e \<Rightarrow> Inl e
                | Inr st2 \<Rightarrow>
                    (case emit_nodes c ''  '' (top_nodes c) st2 of
                       Inl e \<Rightarrow> Inl e
                     | Inr st3 \<Rightarrow>
                         (case emit_edges c ''  '' (bucket c None) st3 of
                            Inl e \<Rightarrow> Inl e
                          | Inr st4 \<Rightarrow>
                              (case (if hl then highlight c st4 else Inr st4) of
                                 Inl e \<Rightarrow> Inl e
                               | Inr st5 \<Rightarrow> Inr (st5\<lparr>lines := lines st5 @ [fence]\<rparr>)))))))"

text \<open>\<^verbatim>\<open>visualize\<close>: the lines of the output and the warnings, or the exception raised.
  \<^verbatim>\<open>namespace\<close> is a dictionary from names to objects, as its annotation says.\<close>

definition visualize_lines ::
  "set_order \<Rightarrow> heap \<Rightarrow> oid \<Rightarrow> (string \<times> oid) list \<Rightarrow> options \<Rightarrow> error + (string list \<times> warning list)"
where
  "visualize_lines so h flow namespace opts =
     (case direction_u (direction opts) of
        Inl e \<Rightarrow> Inl e
      | Inr dir_u \<Rightarrow>
          if dir_u \<notin> {''LR'', ''RL'', ''TB'', ''TD'', ''BT''}
          then Inl (ValueError ''direction must be one of LR/RL/TB/TD/BT'')
          else (case max_nodes opts of
                  PInt n \<Rightarrow>
                    if n \<le> 0 then Inl (ValueError ''max_nodes must be a positive integer'')
                    else (case discover h n flow of
                            Inl e \<Rightarrow> Inl e
                          | Inr (vo, es) \<Rightarrow>
                              (case edges_by_container so h vo (render_edges so h vo es) of
                                 Inl e \<Rightarrow> Inl e
                               | Inr buckets \<Rightarrow>
                                   (case render
                                           \<lparr>c_so = so, c_heap = h, c_vo = vo,
                                            c_names = names_by_obj_id h namespace,
                                            c_show_default = show_default opts,
                                            c_buckets = buckets\<rparr>
                                           flow dir_u (highlight_starts opts)
                                           (if namespace = [] then [MissingNamespace] else []) of
                                      Inl e \<Rightarrow> Inl e
                                    | Inr st \<Rightarrow> Inr (lines st, warnings st))))
                | _ \<Rightarrow> Inl (ValueError ''max_nodes must be a positive integer'')))"

definition visualize ::
  "set_order \<Rightarrow> heap \<Rightarrow> oid \<Rightarrow> (string \<times> oid) list \<Rightarrow> options \<Rightarrow> error + (string \<times> warning list)"
where
  "visualize so h flow namespace opts =
     (case visualize_lines so h flow namespace opts of
        Inl e \<Rightarrow> Inl e
      | Inr (ls, ws) \<Rightarrow> Inr (join_lines ls, ws))"

section \<open>Iteration orders and set operations\<close>

text \<open>The order in which every set is iterated when its elements are visited in insertion
  order; used for concrete inputs.\<close>

definition insertion_order :: set_order where
  "insertion_order = \<lparr>oid_rank = (\<lambda>xs x. 0), edge_rank = (\<lambda>xs x. 0)\<rparr>"

lemma set_iter_oids [simp]: "set (iter_oids so xs) = set xs"
  by (simp add: iter_oids_def)

lemma distinct_iter_oids [simp]: "distinct (iter_oids so xs) = distinct xs"
  by (simp add: iter_oids_def)

lemma set_iter_edges [simp]: "set (iter_edges so xs) = set xs"
  by (simp add: iter_edges_def)

lemma distinct_iter_edges [simp]: "distinct (iter_edges so xs) = distinct xs"
  by (simp add: iter_edges_def)

lemma set_set_add [simp]: "set (set_add x xs) = insert x (set xs)"
  by (auto simp: set_add_def)

lemma distinct_set_add [simp]: "distinct (set_add x xs) = distinct xs"
  by (auto simp: set_add_def)

lemma set_set_union [simp]: "set (set_union xs ys) = set xs \<union> set ys"
  unfolding set_union_def by (induction ys arbitrary: xs) auto

lemma distinct_set_union [simp]: "distinct (set_union xs ys) = distinct xs"
  unfolding set_union_def by (induction ys arbitrary: xs) auto

section \<open>Containment\<close>

lemma claim_body_apply:
  "claim_body fid nids m x =
     (case m x of Some y \<Rightarrow> Some y | None \<Rightarrow> if x \<in> set nids then Some fid else None)"
  unfolding claim_body_def
  by (induction nids arbitrary: m) (auto split: option.splits)

lemma fold_claim_body_apply:
  "fold (\<lambda>fid. claim_body fid (B fid)) fs m x =
     (case m x of Some y \<Rightarrow> Some y | None \<Rightarrow> List.find (\<lambda>fid. x \<in> set (B fid)) fs)"
  by (induction fs arbitrary: m) (auto simp: claim_body_apply split: option.splits)

lemma container_first_claim:
  "container_flow_by_node_id so h vo nid =
     List.find (\<lambda>fid. nid \<in> set (body_by_flow_id h vo fid)) (flow_ids h vo)"
  by (simp add: container_flow_by_node_id_def fold_claim_body_apply)

section \<open>Reachability, and what discovery computes\<close>

text \<open>The objects that visiting \<open>x\<close> puts on the queue: the start node of a flow and the
  successors that are not None. \<open>reach h root\<close> is the set of objects reachable from the
  entry flow through these references: the graph of the specification.\<close>

definition targets :: "heap \<Rightarrow> oid \<Rightarrow> oid set" where
  "targets h x =
     (if flow_at h x then set_option (start_of h x) else {}) \<union> snd ` set (out_edges h x)"

definition reach :: "heap \<Rightarrow> oid \<Rightarrow> oid set" where
  "reach h root = {y. (root, y) \<in> {(x, y). y \<in> targets h x}\<^sup>*}"

definition qset :: "oid option list \<Rightarrow> oid set" where
  "qset q = {y. Some y \<in> set q}"

definition disc_inv :: "heap \<Rightarrow> oid \<Rightarrow> oid option list \<Rightarrow> oid list \<Rightarrow> edge list \<Rightarrow> bool" where
  "disc_inv h root q vo es \<longleftrightarrow>
     distinct vo \<and> root \<in> set vo \<union> qset q \<and> set vo \<union> qset q \<subseteq> reach h root
     \<and> (\<forall>x\<in>set vo. targets h x \<subseteq> set vo \<union> qset q)
     \<and> set es = {(x, a, y). x \<in> set vo \<and> (a, y) \<in> set (out_edges h x)}
     \<and> distinct es"

lemma qset_simps [simp]:
  "qset [] = {}" "qset (None # q) = qset q" "qset (Some x # q) = insert x (qset q)"
  "qset (q @ q') = qset q \<union> qset q'"
  by (auto simp: qset_def)

lemma qset_map_Some [simp]: "qset (map (\<lambda>(act, nxt). Some nxt) xs) = snd ` set xs"
  by (force simp: qset_def)

lemma qset_pushed:
  "qset ((if flow_at h cid \<and> start_of h cid \<noteq> None then q @ [start_of h cid] else q)
          @ map (\<lambda>(act, nxt). Some nxt) (out_edges h cid)) = qset q \<union> targets h cid"
  by (cases "start_of h cid") (auto simp: targets_def)

lemma reach_root: "root \<in> reach h root"
  by (simp add: reach_def)

lemma reach_step: "x \<in> reach h root \<Longrightarrow> y \<in> targets h x \<Longrightarrow> y \<in> reach h root"
  unfolding reach_def by (auto intro: rtrancl_into_rtrancl)

lemma reach_least:
  assumes "root \<in> V" and "\<And>x y. x \<in> V \<Longrightarrow> y \<in> targets h x \<Longrightarrow> y \<in> V"
  shows "reach h root \<subseteq> V"
proof
  fix y assume "y \<in> reach h root"
  then have "(root, y) \<in> {(x, y). y \<in> targets h x}\<^sup>*" by (simp add: reach_def)
  then show "y \<in> V"
    by (induction rule: rtrancl_induct) (use assms in auto)
qed

lemma targets_outside: "map_of h x = None \<Longrightarrow> targets h x = {}"
  by (simp add: targets_def out_edges_outside flow_at_def obj_at_def plain_obj_def)

lemma finite_targets [simp]: "finite (targets h x)"
  by (simp add: targets_def)

lemma finite_reach [simp]: "finite (reach h root)"
proof -
  have "reach h root \<subseteq> insert root (\<Union>x\<in>fst ` set h. targets h x)"
  proof (rule reach_least)
    show "root \<in> insert root (\<Union>x\<in>fst ` set h. targets h x)" by simp
  next
    fix x y assume "y \<in> targets h x"
    then have "map_of h x \<noteq> None" using targets_outside [of h x] by auto
    then have "x \<in> fst ` set h" by (simp add: map_of_eq_None_iff)
    with \<open>y \<in> targets h x\<close> show "y \<in> insert root (\<Union>x\<in>fst ` set h. targets h x)" by auto
  qed
  then show ?thesis by (rule finite_subset) simp
qed

lemma set_fold_edge_add:
  "set (fold (\<lambda>(act, nxt). set_add (cid, act, nxt)) xs es) = set es \<union> {(cid, a, y) | a y. (a, y) \<in> set xs}"
  by (induction xs arbitrary: es) auto

lemma distinct_fold_edge_add:
  "distinct (fold (\<lambda>(act, nxt). set_add (cid, act, nxt)) xs es) = distinct es"
  by (induction xs arbitrary: es) auto

lemma disc_inv_None: "disc_inv h root (None # q) vo es \<Longrightarrow> disc_inv h root q vo es"
  by (simp add: disc_inv_def)

lemma disc_inv_seen:
  assumes "disc_inv h root (Some cid # q) vo es" "cid \<in> set vo"
  shows "disc_inv h root q vo es"
  using assms unfolding disc_inv_def by (auto simp: insert_absorb)

lemma disc_inv_visit:
  assumes inv: "disc_inv h root (Some cid # q) vo es" and new: "cid \<notin> set vo"
  shows "disc_inv h root
           ((if flow_at h cid \<and> start_of h cid \<noteq> None then q @ [start_of h cid] else q)
              @ map (\<lambda>(act, nxt). Some nxt) (out_edges h cid))
           (vo @ [cid])
           (fold (\<lambda>(act, nxt). set_add (cid, act, nxt)) (out_edges h cid) es)"
  unfolding disc_inv_def qset_pushed
proof (intro conjI)
  from inv have cid: "cid \<in> reach h root" by (auto simp: disc_inv_def)
  show "distinct (vo @ [cid])" using inv new by (simp add: disc_inv_def)
  show "root \<in> set (vo @ [cid]) \<union> (qset q \<union> targets h cid)"
    using inv by (auto simp: disc_inv_def)
  show "set (vo @ [cid]) \<union> (qset q \<union> targets h cid) \<subseteq> reach h root"
    using inv cid reach_step [OF cid] by (auto simp: disc_inv_def)
  show "\<forall>x\<in>set (vo @ [cid]). targets h x \<subseteq> set (vo @ [cid]) \<union> (qset q \<union> targets h cid)"
    using inv by (auto simp: disc_inv_def)
  show "set (fold (\<lambda>(act, nxt). set_add (cid, act, nxt)) (out_edges h cid) es) =
        {(x, a, y). x \<in> set (vo @ [cid]) \<and> (a, y) \<in> set (out_edges h x)}"
    using inv by (auto simp: disc_inv_def set_fold_edge_add)
  show "distinct (fold (\<lambda>(act, nxt). set_add (cid, act, nxt)) (out_edges h cid) es)"
    using inv by (simp add: disc_inv_def distinct_fold_edge_add)
qed

lemma discover_loop_inv:
  "disc_inv h root q vo es \<Longrightarrow> discover_loop h m q vo es = Inr (vo', es') \<Longrightarrow>
     disc_inv h root [] vo' es' \<and> int (length vo') \<le> max m (int (length vo))"
proof (induction h m q vo es rule: discover_loop.induct)
  case (1 h max_nodes vo es)
  then show ?case by simp
next
  case (2 h max_nodes q vo es)
  then show ?case by (simp add: disc_inv_None)
next
  case (3 h max_nodes cid q vo es)
  show ?case
  proof (cases "cid \<in> set vo")
    case True
    with 3 show ?thesis by (simp add: disc_inv_seen)
  next
    case False
    with "3.prems"(2) have small: "\<not> int (length (vo @ [cid])) > max_nodes"
      by (auto split: if_splits)
    from "3.IH"(2) [OF False small disc_inv_visit [OF "3.prems"(1) False]] "3.prems"(2) False small
    show ?thesis by (auto split: if_splits)
  qed
qed

lemma discover_loop_fails:
  "disc_inv h root q vo es \<Longrightarrow> discover_loop h m q vo es = Inl e \<Longrightarrow>
     e = RuntimeError ''max_nodes exceeded'' \<and> m < int (card (reach h root))"
proof (induction h m q vo es rule: discover_loop.induct)
  case (1 h max_nodes vo es)
  then show ?case by simp
next
  case (2 h max_nodes q vo es)
  then show ?case by (simp add: disc_inv_None)
next
  case (3 h max_nodes cid q vo es)
  show ?case
  proof (cases "cid \<in> set vo")
    case True
    with 3 show ?thesis by (simp add: disc_inv_seen)
  next
    case False
    show ?thesis
    proof (cases "int (length (vo @ [cid])) > max_nodes")
      case True
      from "3.prems"(1) False have "distinct (vo @ [cid])" "set (vo @ [cid]) \<subseteq> reach h root"
        by (auto simp: disc_inv_def)
      then have "length (vo @ [cid]) \<le> card (reach h root)"
        by (metis card_mono distinct_card finite_reach)
      with True "3.prems"(2) False show ?thesis by auto
    next
      case small: False
      from "3.IH"(2) [OF False small disc_inv_visit [OF "3.prems"(1) False]] "3.prems"(2) False small
      show ?thesis by (auto split: if_splits)
    qed
  qed
qed

lemma disc_inv_init: "disc_inv h root [Some root] [] []"
  by (simp add: disc_inv_def reach_root)

lemma disc_inv_final:
  assumes "disc_inv h root [] vo es"
  shows "set vo = reach h root"
proof
  show "set vo \<subseteq> reach h root" using assms by (simp add: disc_inv_def)
  show "reach h root \<subseteq> set vo"
    by (rule reach_least) (use assms in \<open>auto simp: disc_inv_def\<close>)
qed

text \<open>What a successful discovery returns.\<close>

lemma discover_Inr:
  assumes "discover h m root = Inr (vo, es)"
  shows "distinct vo" "set vo = reach h root" "int (length vo) \<le> max m 0"
    "set es = {(x, a, y). x \<in> set vo \<and> (a, y) \<in> set (out_edges h x)}" "distinct es"
proof -
  from discover_loop_inv [OF disc_inv_init assms [unfolded discover_def]]
  have inv: "disc_inv h root [] vo es" and len: "int (length vo) \<le> max m 0" by auto
  show "distinct vo" "distinct es"
    "set es = {(x, a, y). x \<in> set vo \<and> (a, y) \<in> set (out_edges h x)}"
    using inv by (auto simp: disc_inv_def)
  show "set vo = reach h root" using inv by (rule disc_inv_final)
  show "int (length vo) \<le> max m 0" by (rule len)
qed

lemma discover_Inl:
  assumes "discover h m root = Inl e"
  shows "e = RuntimeError ''max_nodes exceeded''" "m < int (card (reach h root))"
  using discover_loop_fails [OF disc_inv_init assms [unfolded discover_def]] by auto

lemma discover_card:
  assumes "discover h m root = Inr (vo, es)"
  shows "length vo = card (reach h root)"
  using discover_Inr(1,2) [OF assms] by (metis distinct_card)

lemma discover_succeeds_iff:
  assumes "0 < m"
  shows "(\<exists>r. discover h m root = Inr r) \<longleftrightarrow> int (card (reach h root)) \<le> m"
proof (cases "discover h m root")
  case (Inl e)
  with discover_Inl(2) [OF Inl] show ?thesis by auto
next
  case (Inr r)
  obtain vo es where "r = (vo, es)" by (cases r)
  with Inr discover_Inr(3) [of h m root vo es] discover_card [of h m root vo es] assms
  show ?thesis by auto
qed

section \<open>The local traversals: bodies and leaves\<close>

text \<open>\<open>sreach h s\<close>: the objects reachable from \<open>s\<close> through successors only.\<close>

definition succs :: "heap \<Rightarrow> oid \<Rightarrow> oid set" where
  "succs h x = snd ` set (out_edges h x)"

definition sreach :: "heap \<Rightarrow> oid \<Rightarrow> oid set" where
  "sreach h s = {y. (s, y) \<in> {(x, y). y \<in> succs h x}\<^sup>*}"

lemma sreach_refl: "s \<in> sreach h s"
  by (simp add: sreach_def)

lemma sreach_step: "x \<in> sreach h s \<Longrightarrow> y \<in> succs h x \<Longrightarrow> y \<in> sreach h s"
  unfolding sreach_def by (auto intro: rtrancl_into_rtrancl)

lemma sreach_least:
  assumes "s \<in> V" and "\<And>x y. x \<in> V \<Longrightarrow> y \<in> succs h x \<Longrightarrow> y \<in> V"
  shows "sreach h s \<subseteq> V"
proof
  fix y assume "y \<in> sreach h s"
  then have "(s, y) \<in> {(x, y). y \<in> succs h x}\<^sup>*" by (simp add: sreach_def)
  then show "y \<in> V"
    by (induction rule: rtrancl_induct) (use assms in auto)
qed

lemma sreach_trans: "x \<in> sreach h s \<Longrightarrow> y \<in> sreach h x \<Longrightarrow> y \<in> sreach h s"
  unfolding sreach_def by auto

lemma succs_targets: "succs h x \<subseteq> targets h x"
  by (auto simp: succs_def targets_def)

lemma qset_map_succs: "qset (q @ map (\<lambda>(act, nxt). Some nxt) (out_edges h nid)) = qset q \<union> succs h nid"
  by (simp add: succs_def)

definition body_inv :: "heap \<Rightarrow> oid \<Rightarrow> oid option list \<Rightarrow> oid list \<Rightarrow> bool" where
  "body_inv h s q seen \<longleftrightarrow>
     distinct seen \<and> s \<in> set seen \<union> qset q \<and> set seen \<union> qset q \<subseteq> sreach h s
     \<and> (\<forall>x\<in>set seen. succs h x \<subseteq> set seen \<union> qset q)"

lemma body_loop_inv:
  "body_inv h s q seen \<Longrightarrow> body_inv h s [] (body_loop h q seen)"
proof (induction h q seen rule: body_loop.induct)
  case (1 h seen)
  then show ?case by simp
next
  case (2 h q seen)
  then show ?case by (simp add: body_inv_def)
next
  case (3 h nid q seen)
  show ?case
  proof (cases "nid \<in> set seen")
    case True
    with "3.prems" have "body_inv h s q seen"
      by (auto simp: body_inv_def insert_absorb)
    with True "3.IH"(1) show ?thesis by simp
  next
    case False
    from "3.prems" have nid: "nid \<in> sreach h s" by (auto simp: body_inv_def)
    have "body_inv h s (q @ map (\<lambda>(act, nxt). Some nxt) (out_edges h nid)) (seen @ [nid])"
      unfolding body_inv_def qset_map_succs
      using "3.prems" False sreach_step [OF nid] by (auto simp: body_inv_def)
    with False "3.IH"(2) show ?thesis by simp
  qed
qed

lemma body_loop_start:
  "set (body_loop h [Some s] []) = sreach h s" "distinct (body_loop h [Some s] [])"
proof -
  have "body_inv h s [Some s] []" by (simp add: body_inv_def sreach_refl)
  then have inv: "body_inv h s [] (body_loop h [Some s] [])" by (rule body_loop_inv)
  then show "distinct (body_loop h [Some s] [])" by (simp add: body_inv_def)
  show "set (body_loop h [Some s] []) = sreach h s"
  proof
    show "set (body_loop h [Some s] []) \<subseteq> sreach h s" using inv by (simp add: body_inv_def)
    show "sreach h s \<subseteq> set (body_loop h [Some s] [])"
      by (rule sreach_least) (use inv in \<open>auto simp: body_inv_def\<close>)
  qed
qed

lemma set_body_of:
  "set (body_of h fid) = (case start_of h fid of None \<Rightarrow> {} | Some s \<Rightarrow> sreach h s)"
  by (cases "start_of h fid") (simp_all add: body_of_def body_loop_start del: body_loop.simps)

lemma distinct_body_of [simp]: "distinct (body_of h fid)"
  by (cases "start_of h fid") (simp_all add: body_of_def body_loop_start del: body_loop.simps)





section \<open>Sets closed under the references that discovery follows\<close>

definition closed :: "heap \<Rightarrow> oid set \<Rightarrow> bool" where
  "closed h V \<longleftrightarrow> (\<forall>x\<in>V. targets h x \<subseteq> V)"

lemma closed_reach: "closed h (reach h root)"
  by (auto simp: closed_def intro: reach_step)

lemma closed_sreach: "closed h V \<Longrightarrow> s \<in> V \<Longrightarrow> sreach h s \<subseteq> V"
proof (rule sreach_least)
  fix x y assume "closed h V" "x \<in> V" "y \<in> succs h x"
  then show "y \<in> V" using succs_targets [of h x] by (auto simp: closed_def)
qed

lemma closed_start: "closed h V \<Longrightarrow> x \<in> V \<Longrightarrow> flow_at h x \<Longrightarrow> start_of h x = Some s \<Longrightarrow> s \<in> V"
  by (auto simp: closed_def targets_def)

lemma closed_body:
  assumes "closed h V" "fid \<in> V" "flow_at h fid"
  shows "set (body_of h fid) \<subseteq> V"
proof (cases "start_of h fid")
  case None
  then show ?thesis by (simp add: set_body_of)
next
  case (Some s)
  with assms closed_start have "s \<in> V" by blast
  with assms(1) Some show ?thesis by (simp add: set_body_of closed_sreach)
qed

section \<open>The real start of a flow\<close>

text \<open>The words of the specification: an object delegates when it is a Flow with a start
  node; \<open>follow h k x\<close> is the object reached from \<open>x\<close> after \<open>k\<close> delegations, each from an
  object that delegates.\<close>

definition delegates :: "heap \<Rightarrow> oid \<Rightarrow> bool" where
  "delegates h x = (flow_at h x \<and> start_of h x \<noteq> None)"

fun follow :: "heap \<Rightarrow> nat \<Rightarrow> oid \<Rightarrow> oid option" where
  "follow h 0 x = Some x"
| "follow h (Suc k) x =
     (if delegates h x then (case start_of h x of Some y \<Rightarrow> follow h k y | None \<Rightarrow> None)
      else None)"

lemma follow_add:
  "follow h (a + b) x = (case follow h a x of Some y \<Rightarrow> follow h b y | None \<Rightarrow> None)"
  by (induction a arbitrary: x) (auto split: option.splits)

lemma follow_Suc_delegates: "follow h (Suc k) x = Some y \<Longrightarrow> delegates h x"
  by (auto split: if_splits)

lemma follow_pos_delegates: "follow h k x = Some y \<Longrightarrow> 0 < k \<Longrightarrow> delegates h x"
  by (cases k) (auto split: if_splits)

lemma follow_periodic:
  assumes per: "follow h p x = Some x" "0 < p"
  shows "follow h m x = Some n \<Longrightarrow> delegates h n"
proof (induction m rule: less_induct)
  case (less m)
  show ?case
  proof (cases "m < p")
    case True
    then have "p = m + (p - m)" by simp
    then have "follow h (m + (p - m)) x = Some x" using per(1) by simp
    with less.prems have "follow h (p - m) n = Some x" by (simp add: follow_add)
    with True show ?thesis by (auto intro: follow_pos_delegates)
  next
    case False
    then have "m = p + (m - p)" by simp
    then have "follow h (p + (m - p)) x = Some n" using less.prems by simp
    with per(1) have "follow h (m - p) x = Some n" by (simp add: follow_add)
    with less.IH [of "m - p"] per(2) False show ?thesis by simp
  qed
qed

lemma real_start_loop_SomeD:
  "real_start_loop h x seen = Some n \<Longrightarrow>
     \<exists>y k. x = Some y \<and> follow h k y = Some n \<and> \<not> delegates h n"
proof (induction h x seen rule: real_start_loop.induct)
  case (1 h seen)
  then show ?case by simp
next
  case (2 h xid seen)
  show ?case
  proof (cases "delegates h xid")
    case False
    with "2.prems" have "n = xid" by (auto simp: delegates_def split: if_splits)
    with False show ?thesis by (intro exI [of _ xid] exI [of _ 0]) simp
  next
    case True
    with "2.prems" have new: "xid \<notin> seen"
      and rec: "real_start_loop h (start_of h xid) (insert xid seen) = Some n"
      by (auto simp: delegates_def split: if_splits)
    from True new have "flow_at h xid \<and> start_of h xid \<noteq> None" "xid \<notin> seen"
      by (auto simp: delegates_def)
    from "2.IH" [OF this rec] obtain y k where
      y: "start_of h xid = Some y" "follow h k y = Some n" "\<not> delegates h n" by auto
    with True have "follow h (Suc k) xid = Some n" by simp
    with y(3) show ?thesis by blast
  qed
qed

lemma real_start_loop_follow:
  "follow h k x = Some n \<Longrightarrow> \<not> delegates h n \<Longrightarrow>
   (\<And>j y. j < k \<Longrightarrow> follow h j x = Some y \<Longrightarrow> y \<notin> seen) \<Longrightarrow>
   real_start_loop h (Some x) seen = Some n"
proof (induction k arbitrary: x seen)
  case 0
  then show ?case by (auto simp: delegates_def)
next
  case (Suc k)
  from Suc.prems(1) have del: "delegates h x" by (rule follow_Suc_delegates)
  with Suc.prems(1) obtain y where y: "start_of h x = Some y" "follow h k y = Some n"
    by (auto split: option.splits)
  from Suc.prems(3) [of 0 x] have new: "x \<notin> seen" by simp
  have "real_start_loop h (Some y) (insert x seen) = Some n"
  proof (rule Suc.IH [OF y(2) Suc.prems(2)])
    fix j z assume j: "j < k" and z: "follow h j y = Some z"
    from z del y(1) have z': "follow h (Suc j) x = Some z" by simp
    with Suc.prems(3) [of "Suc j" z] j have "z \<notin> seen" by simp
    moreover have "z \<noteq> x"
    proof
      assume "z = x"
      with z' have "follow h (Suc j) x = Some x" by simp
      from follow_periodic [OF this _ Suc.prems(1)] Suc.prems(2) show False by simp
    qed
    ultimately show "z \<notin> insert x seen" by simp
  qed
  with del new y(1) show ?case by (simp add: delegates_def)
qed

lemma real_start_Some_iff:
  "real_start h f = Some n \<longleftrightarrow>
     (\<exists>x k. start_of h f = Some x \<and> follow h k x = Some n \<and> \<not> delegates h n)"
proof
  assume "real_start h f = Some n"
  then show "\<exists>x k. start_of h f = Some x \<and> follow h k x = Some n \<and> \<not> delegates h n"
    unfolding real_start_def using real_start_loop_SomeD [of h "start_of h f" "{}" n] by blast
next
  assume "\<exists>x k. start_of h f = Some x \<and> follow h k x = Some n \<and> \<not> delegates h n"
  then obtain x k where "start_of h f = Some x" "follow h k x = Some n" "\<not> delegates h n"
    by blast
  with real_start_loop_follow [of h k x n "{}"] show "real_start h f = Some n"
    by (simp add: real_start_def)
qed

lemma real_start_repeat:
  assumes "start_of h f = Some x" "follow h j x = Some y" "follow h k x = Some y" "j < k"
  shows "real_start h f = None"
proof (rule ccontr)
  assume "real_start h f \<noteq> None"
  then obtain n where "real_start h f = Some n" by auto
  with assms(1) obtain m where m: "follow h m x = Some n" "\<not> delegates h n"
    by (auto simp: real_start_Some_iff)
  from assms(4) have "k = j + (k - j)" by simp
  then have "follow h (j + (k - j)) x = Some y" using assms(3) by simp
  with assms(2) have per: "follow h (k - j) y = Some y" by (simp add: follow_add)
  show False
  proof (cases "m < j")
    case True
    then have "j = m + (j - m)" by simp
    then have "follow h (m + (j - m)) x = Some y" using assms(2) by simp
    with m(1) have "follow h (j - m) n = Some y" by (simp add: follow_add)
    with True m(2) show False by (auto dest: follow_pos_delegates)
  next
    case False
    then have "m = j + (m - j)" by simp
    then have "follow h (j + (m - j)) x = Some n" using m(1) by simp
    with assms(2) have "follow h (m - j) y = Some n" by (simp add: follow_add)
    from follow_periodic [OF per _ this] assms(4) m(2) show False by simp
  qed
qed

lemma follow_closed: "closed h V \<Longrightarrow> x \<in> V \<Longrightarrow> follow h k x = Some n \<Longrightarrow> n \<in> V"
proof (induction k arbitrary: x)
  case 0
  then show ?case by simp
next
  case (Suc k)
  from Suc.prems(3) obtain y where "delegates h x" "start_of h x = Some y" "follow h k y = Some n"
    by (auto split: if_splits option.splits)
  with Suc.prems(1,2) Suc.IH [of y] closed_start [of h V x y] show ?case
    by (auto simp: delegates_def)
qed

lemma real_start_closed:
  assumes "closed h V" "f \<in> V" "flow_at h f" "real_start h f = Some rs"
  shows "rs \<in> V"
proof -
  from assms(4) obtain x k where x: "start_of h f = Some x" "follow h k x = Some rs"
    by (auto simp: real_start_Some_iff)
  from closed_start [OF assms(1-3) x(1)] follow_closed [OF assms(1) _ x(2)] show ?thesis by blast
qed

lemma real_start_not_delegates: "real_start h f = Some rs \<Longrightarrow> \<not> delegates h rs"
  by (auto simp: real_start_Some_iff)

lemma is_expanded_flow_D:
  "is_expanded_flow h i \<Longrightarrow> flow_at h i \<and> (\<exists>s. start_of h i = Some s) \<and> (\<exists>rs. real_start h i = Some rs)"
  by (auto simp: is_expanded_flow_def)

lemma real_start_not_expanded: "real_start h f = Some rs \<Longrightarrow> \<not> is_expanded_flow h rs"
  by (auto simp: is_expanded_flow_def delegates_def dest: real_start_not_delegates)

section \<open>Exit sources stay within the discovered objects\<close>

definition cache_within :: "oid set \<Rightarrow> exit_state \<Rightarrow> bool" where
  "cache_within V st \<longleftrightarrow> (\<forall>i r. exit_cache st i = Some r \<longrightarrow> set r \<subseteq> V \<and> r \<noteq> [])"

lemma cache_within_computing [simp]:
  "cache_within V (st\<lparr>exit_computing := C\<rparr>) = cache_within V st"
  by (simp add: cache_within_def)

lemma cache_within_update:
  "cache_within V st \<Longrightarrow> set r \<subseteq> V \<Longrightarrow> r \<noteq> [] \<Longrightarrow>
     cache_within V (st\<lparr>exit_cache := (exit_cache st)(i \<mapsto> r), exit_computing := C\<rparr>)"
  by (simp add: cache_within_def)

text \<open>The three early returns of \<^verbatim>\<open>_exit_source_oids\<close> and its main path, as equations.\<close>

lemma exit_source_oids_not_expanded:
  "\<not> is_expanded_flow h oid \<Longrightarrow> exit_source_oids so h vo oid st = ([oid], st)"
  by simp

lemma exit_source_oids_cached:
  "is_expanded_flow h oid \<Longrightarrow> exit_cache st oid = Some r \<Longrightarrow>
     exit_source_oids so h vo oid st = (r, st)"
  by simp

lemma exit_source_oids_in_progress:
  "is_expanded_flow h oid \<Longrightarrow> exit_cache st oid = None \<Longrightarrow> oid \<in> exit_computing st \<Longrightarrow>
     real_start h oid = Some rs \<Longrightarrow> exit_source_oids so h vo oid st = ([rs], st)"
  by simp

lemma exit_source_oids_compute:
  assumes "is_expanded_flow h oid" "exit_cache st oid = None" "oid \<notin> exit_computing st"
    and "real_start h oid = Some rs"
    and "exit_resolve so h vo (iter_oids so (leaves_loop h [start_of h oid] {} [])) []
           (st\<lparr>exit_computing := insert oid (exit_computing st)\<rparr>) = (resolved, st')"
  shows "exit_source_oids so h vo oid st =
           (if resolved = [] then [rs] else resolved,
            st'\<lparr>exit_cache := (exit_cache st')(oid \<mapsto> if resolved = [] then [rs] else resolved),
                exit_computing := exit_computing st' - {oid}\<rparr>)"
  using assms by (simp add: Let_def set_add_def)

declare exit_source_oids.simps [simp del]

lemma exit_sources_within:
  "closed h V \<Longrightarrow> set vo \<subseteq> V \<Longrightarrow> oid \<in> V \<Longrightarrow> cache_within V st \<Longrightarrow>
     set (fst (exit_source_oids so h vo oid st)) \<subseteq> V
     \<and> fst (exit_source_oids so h vo oid st) \<noteq> []
     \<and> cache_within V (snd (exit_source_oids so h vo oid st))
     \<and> exit_computing (snd (exit_source_oids so h vo oid st)) = exit_computing st"
  "closed h V \<Longrightarrow> set vo \<subseteq> V \<Longrightarrow> set resolved \<subseteq> V \<Longrightarrow> cache_within V st \<Longrightarrow>
     set (fst (exit_resolve so h vo lids resolved st)) \<subseteq> V
     \<and> cache_within V (snd (exit_resolve so h vo lids resolved st))
     \<and> exit_computing (snd (exit_resolve so h vo lids resolved st)) = exit_computing st"
proof (induction so h vo oid st and so h vo lids resolved st
       rule: exit_source_oids_exit_resolve.induct)
  case (1 so h vo oid st)
  show ?case
  proof (cases "is_expanded_flow h oid")
    case False
    with "1.prems" show ?thesis by (simp add: exit_source_oids_not_expanded)
  next
    case True
    then obtain rs where rs: "real_start h oid = Some rs" and fl: "flow_at h oid"
      by (auto dest: is_expanded_flow_D)
    from real_start_closed [OF "1.prems"(1,3) fl rs] have rsV: "rs \<in> V" .
    show ?thesis
    proof (cases "exit_cache st oid")
      case (Some r)
      with True "1.prems" show ?thesis
        by (auto simp: exit_source_oids_cached cache_within_def)
    next
      case None
      show ?thesis
      proof (cases "oid \<in> exit_computing st")
        case inprog: True
        with True None rs rsV "1.prems" show ?thesis
          by (simp add: exit_source_oids_in_progress)
      next
        case False
        obtain resolved st' where r:
          "exit_resolve so h vo (iter_oids so (leaves_loop h [start_of h oid] {} [])) []
             (st\<lparr>exit_computing := insert oid (exit_computing st)\<rparr>) = (resolved, st')"
          by (cases "exit_resolve so h vo (iter_oids so (leaves_loop h [start_of h oid] {} [])) []
             (st\<lparr>exit_computing := insert oid (exit_computing st)\<rparr>)") auto
        have cond: "(if oid \<in> exit_computing st then real_start h oid else None) = None"
          using False by simp
        have "cache_within V (st\<lparr>exit_computing := insert oid (exit_computing st)\<rparr>)"
          using "1.prems"(4) by simp
        from "1.IH" [OF _ None cond "1.prems"(1,2) _ this] True r
        have res: "set resolved \<subseteq> V" "cache_within V st'"
          "exit_computing st' = insert oid (exit_computing st)"
          by auto
        from res rsV False show ?thesis
          unfolding exit_source_oids_compute [OF True None False rs r]
          by (auto simp: cache_within_def)
      qed
    qed
  qed
next
  case (2 so h vo resolved st)
  then show ?case by simp
next
  case (3 so h vo lid lids resolved st)
  show ?case
  proof (cases "lid \<in> set vo")
    case False
    with "3.IH"(1) "3.prems" show ?thesis by simp
  next
    case known: True
    show ?thesis
    proof (cases "is_expanded_flow h lid")
      case False
      have "set (set_add lid resolved) \<subseteq> V" using known "3.prems" by auto
      from "3.IH"(4) [OF _ False "3.prems"(1,2) this "3.prems"(4)] known False
      show ?thesis by simp
    next
      case True
      obtain r st' where r: "exit_source_oids so h vo lid st = (r, st')"
        by (cases "exit_source_oids so h vo lid st") auto
      have lidV: "lid \<in> V" using known "3.prems"(2) by auto
      from "3.IH"(2) [OF _ True "3.prems"(1,2) lidV "3.prems"(4)] known r
      have a: "set r \<subseteq> V" "cache_within V st'" "exit_computing st' = exit_computing st"
        by auto
      have "set (set_union resolved r) \<subseteq> V" using a(1) "3.prems"(3) by simp
      from "3.IH"(3) [OF _ True r [symmetric] "3.prems"(1,2) this a(2)] known a(3)
      show ?thesis using known True r by simp
    qed
  qed
qed

section \<open>The calls that the two loops over sets make\<close>

text \<open>What \<^verbatim>\<open>_exit_source_oids\<close> returns depends on the cache and on the in-progress set
  at the moment of the call. \<open>resolve_trace\<close> lists, for the leaves that the loop of lines
  216-222 visits, in its order, what each contributes: the leaf itself, or what the
  recursive call returns at that moment. \<open>exit_trace\<close> lists, for the edges that the loop
  of lines 232-239 rewrites, in its order, the exit sources that the call for the source of
  the edge returns at that moment.\<close>

fun resolve_trace ::
  "set_order \<Rightarrow> heap \<Rightarrow> oid list \<Rightarrow> oid list \<Rightarrow> exit_state \<Rightarrow> (oid \<times> oid list) list"
where
  "resolve_trace so h vo [] st = []"
| "resolve_trace so h vo (lid # lids) st =
     (if lid \<notin> set vo then resolve_trace so h vo lids st
      else if is_expanded_flow h lid then
        (lid, fst (exit_source_oids so h vo lid st))
          # resolve_trace so h vo lids (snd (exit_source_oids so h vo lid st))
      else (lid, [lid]) # resolve_trace so h vo lids st)"

fun exit_trace ::
  "set_order \<Rightarrow> heap \<Rightarrow> oid list \<Rightarrow> edge list \<Rightarrow> exit_state \<Rightarrow> (edge \<times> oid list) list"
where
  "exit_trace so h vo [] st = []"
| "exit_trace so h vo ((src, act, tgt) # es) st =
     (if src \<notin> set vo \<or> tgt \<notin> set vo then exit_trace so h vo es st
      else ((src, act, tgt), fst (exit_source_oids so h vo src st))
             # exit_trace so h vo es (snd (exit_source_oids so h vo src st)))"


lemma exit_resolve_distinct:
  "distinct (fst (exit_resolve so h vo lids resolved st)) = distinct resolved"
  by (induction lids arbitrary: resolved st) (auto split: prod.splits)

lemma resolve_trace_leaves:
  "map fst (resolve_trace so h vo lids st) = filter (\<lambda>l. l \<in> set vo) lids"
  by (induction lids arbitrary: st) auto

lemma set_fold_rewrite_add:
  "set (fold (\<lambda>s. set_add (s, act, t)) xs res) = set res \<union> {(s, act, t) | s. s \<in> set xs}"
  by (induction xs arbitrary: res) auto

lemma distinct_fold_rewrite_add:
  "distinct (fold (\<lambda>s. set_add (s, act, t)) xs res) = distinct res"
  by (induction xs arbitrary: res) auto

lemma rewrite_loop_set:
  "set (fst (rewrite_loop so h vo es res st)) =
     set res \<union> (\<Union>(e, xs)\<in>set (exit_trace so h vo es st).
                  {(s, fst (snd e), entry_oid h (snd (snd e))) | s. s \<in> set xs})"
proof (induction es arbitrary: res st)
  case Nil
  then show ?case by simp
next
  case (Cons e es)
  obtain src act tgt where e: "e = (src, act, tgt)" by (cases e)
  show ?case
  proof (cases "src \<notin> set vo \<or> tgt \<notin> set vo")
    case True
    with Cons e show ?thesis by simp
  next
    case False
    obtain xs st' where x: "exit_source_oids so h vo src st = (xs, st')"
      by (cases "exit_source_oids so h vo src st") auto
    from False e x Cons [of "fold (\<lambda>s. set_add (s, act, entry_oid h tgt)) (iter_oids so xs) res" st']
    show ?thesis by (simp add: set_fold_rewrite_add Un_assoc)
  qed
qed

lemma rewrite_loop_distinct:
  "distinct (fst (rewrite_loop so h vo es res st)) = distinct res"
proof (induction es arbitrary: res st)
  case Nil
  then show ?case by simp
next
  case (Cons e es)
  obtain src act tgt where e: "e = (src, act, tgt)" by (cases e)
  with Cons show ?case
    by (auto simp: distinct_fold_rewrite_add split: prod.splits)
qed

lemma exit_trace_edges:
  "map fst (exit_trace so h vo es st) = filter (\<lambda>(s, a, t). s \<in> set vo \<and> t \<in> set vo) es"
proof (induction es arbitrary: st)
  case Nil
  then show ?case by simp
next
  case (Cons e es)
  obtain src act tgt where e: "e = (src, act, tgt)" by (cases e)
  show ?case
    using Cons [of st] Cons [of "snd (exit_source_oids so h vo src st)"] e by simp
qed

lemma exit_trace_within:
  "closed h (set vo) \<Longrightarrow> cache_within (set vo) st \<Longrightarrow> (e, xs) \<in> set (exit_trace so h vo es st) \<Longrightarrow>
     set xs \<subseteq> set vo \<and> xs \<noteq> [] \<and> (\<not> is_expanded_flow h (fst e) \<longrightarrow> xs = [fst e])"
proof (induction es arbitrary: st)
  case Nil
  then show ?case by simp
next
  case (Cons e' es)
  obtain src act tgt where e': "e' = (src, act, tgt)" by (cases e')
  show ?case
  proof (cases "src \<notin> set vo \<or> tgt \<notin> set vo")
    case True
    with Cons e' show ?thesis by simp
  next
    case False
    then have src: "src \<in> set vo" by simp
    note w = exit_sources_within(1) [OF Cons.prems(1) subset_refl src Cons.prems(2), of so]
    from Cons.prems(3) False e' consider
      "(e, xs) = ((src, act, tgt), fst (exit_source_oids so h vo src st))"
      | "(e, xs) \<in> set (exit_trace so h vo es (snd (exit_source_oids so h vo src st)))"
      by auto
    then show ?thesis
    proof cases
      case 1
      with w show ?thesis by (auto simp: exit_source_oids_not_expanded)
    next
      case 2
      from Cons.IH [OF Cons.prems(1) _ 2] w show ?thesis by blast
    qed
  qed
qed

lemma cache_within_init [simp]: "cache_within V exit_state0"
  by (simp add: cache_within_def exit_state0_def)

lemma entry_oid_cases:
  "(\<not> is_expanded_flow h t \<longrightarrow> entry_oid h t = t)
   \<and> (is_expanded_flow h t \<longrightarrow> real_start h t = Some (entry_oid h t))"
  by (auto simp: entry_oid_def is_expanded_flow_def)

lemma entry_oid_within:
  "closed h V \<Longrightarrow> t \<in> V \<Longrightarrow> entry_oid h t \<in> V"
  using entry_oid_cases [of h t] real_start_closed [of h V t "entry_oid h t"]
  by (cases "is_expanded_flow h t") (auto dest: is_expanded_flow_D)

text \<open>After a successful discovery every edge joins two discovered objects, and the
  discovered objects are closed under the references discovery follows.\<close>

lemma discover_closed:
  assumes "discover h m root = Inr (vo, es)"
  shows "closed h (set vo)" "root \<in> set vo"
    "\<And>s a t. (s, a, t) \<in> set es \<Longrightarrow> s \<in> set vo \<and> t \<in> set vo"
proof -
  show c: "closed h (set vo)" "root \<in> set vo"
    using discover_Inr(2) [OF assms] by (simp_all add: closed_reach reach_root)
  fix s a t assume "(s, a, t) \<in> set es"
  then have "s \<in> set vo" "(a, t) \<in> set (out_edges h s)"
    using discover_Inr(4) [OF assms] by auto
  then have "t \<in> targets h s" by (force simp: targets_def)
  with c(1) \<open>s \<in> set vo\<close> show "s \<in> set vo \<and> t \<in> set vo" by (auto simp: closed_def)
qed

lemma render_edges_within:
  assumes "closed h (set vo)" "(s, a, t) \<in> set (render_edges so h vo es)"
  shows "s \<in> set vo \<and> t \<in> set vo"
proof -
  from assms(2) obtain e xs where
    ex: "(e, xs) \<in> set (exit_trace so h vo (iter_edges so es) exit_state0)"
    and s: "s \<in> set xs" and t: "t = entry_oid h (snd (snd e))"
    by (auto simp: render_edges_def rewrite_loop_set)
  from ex have "e \<in> fst ` set (exit_trace so h vo (iter_edges so es) exit_state0)" by force
  then have "e \<in> set (map fst (exit_trace so h vo (iter_edges so es) exit_state0))" by simp
  then have "snd (snd e) \<in> set vo" unfolding exit_trace_edges by auto
  with assms(1) t have "t \<in> set vo" by (simp add: entry_oid_within)
  moreover from exit_trace_within [OF assms(1) _ ex] s have "s \<in> set vo" by auto
  ultimately show ?thesis by simp
qed

lemma resolve_trace_entry:
  "(l, xs) \<in> set (resolve_trace so h vo lids st) \<Longrightarrow>
     l \<in> set lids \<and> l \<in> set vo
     \<and> (if is_expanded_flow h l then \<exists>st'. xs = fst (exit_source_oids so h vo l st') else xs = [l])"
proof (induction lids arbitrary: st)
  case Nil
  then show ?case by simp
next
  case (Cons lid lids)
  show ?case
  proof (cases "lid \<in> set vo")
    case False
    with Cons.prems Cons.IH [of st] show ?thesis by simp
  next
    case True
    show ?thesis
    proof (cases "is_expanded_flow h lid")
      case False
      with True Cons.prems Cons.IH [of st] show ?thesis by auto
    next
      case exp: True
      with True Cons.prems Cons.IH [of "snd (exit_source_oids so h vo lid st)"] show ?thesis
        by auto
    qed
  qed
qed

section \<open>What every leaf contributes\<close>


lemma exit_resolve_state:
  "snd (exit_resolve so h vo lids r st) = snd (exit_resolve so h vo lids r' st)"
  by (induction lids arbitrary: r r' st) (auto split: prod.splits)




section \<open>Example graphs\<close>

text \<open>A flow nested in a flow: flow 0 starts at flow 1, flow 1 starts at node 2 and has
  node 3 as its default successor.\<close>

definition nested_flows :: heap where
  "nested_flows =
     [(0, \<lparr>cls = ''Flow'', is_flow = True, start_node = Some 1, successors = []\<rparr>),
      (1, \<lparr>cls = ''Flow'', is_flow = True, start_node = Some 2, successors = [(''default'', Some 3)]\<rparr>),
      (2, \<lparr>cls = ''Node'', is_flow = False, start_node = None, successors = []\<rparr>),
      (3, \<lparr>cls = ''Node'', is_flow = False, start_node = None, successors = []\<rparr>)]"

text \<open>A graph in which two flows hold each other: flow 0 starts at node 1, whose successor
  is flow 2; flow 2 starts at node 3, whose successor is flow 0.\<close>

definition mutual_flows :: heap where
  "mutual_flows =
     [(0, \<lparr>cls = ''Flow'', is_flow = True, start_node = Some 1, successors = []\<rparr>),
      (1, \<lparr>cls = ''Node'', is_flow = False, start_node = None, successors = [(''default'', Some 2)]\<rparr>),
      (2, \<lparr>cls = ''Flow'', is_flow = True, start_node = Some 3, successors = []\<rparr>),
      (3, \<lparr>cls = ''Node'', is_flow = False, start_node = None, successors = [(''default'', Some 0)]\<rparr>)]"

text \<open>A delegation cycle: flow 0 starts at flow 1 and flow 1 starts at flow 0; the default
  successor of flow 1 is flow 2, which has no start node.\<close>

definition delegation_cycle :: heap where
  "delegation_cycle =
     [(0, \<lparr>cls = ''Flow'', is_flow = True, start_node = Some 1, successors = []\<rparr>),
      (1, \<lparr>cls = ''Flow'', is_flow = True, start_node = Some 0, successors = [(''default'', Some 2)]\<rparr>),
      (2, \<lparr>cls = ''Flow'', is_flow = True, start_node = None, successors = []\<rparr>)]"


text \<open>Two flows that hold each other below a root that holds neither: the root flow 0 has no
  start node and has flow 1 as its default successor; flow 1 starts at node 2, whose
  successors are flow 3 and flow 5; flow 3 starts at node 4, whose successor is flow 1;
  flow 5 has no start node.\<close>

definition orphan_flows :: heap where
  "orphan_flows =
     [(0, \<lparr>cls = ''Flow'', is_flow = True, start_node = None, successors = [(''default'', Some 1)]\<rparr>),
      (1, \<lparr>cls = ''Flow'', is_flow = True, start_node = Some 2, successors = []\<rparr>),
      (2, \<lparr>cls = ''Node'', is_flow = False, start_node = None,
           successors = [(''default'', Some 3), (''skip'', Some 5)]\<rparr>),
      (3, \<lparr>cls = ''Flow'', is_flow = True, start_node = Some 4, successors = []\<rparr>),
      (4, \<lparr>cls = ''Node'', is_flow = False, start_node = None, successors = [(''default'', Some 1)]\<rparr>),
      (5, \<lparr>cls = ''Flow'', is_flow = True, start_node = None, successors = []\<rparr>)]"

text \<open>The options with their default values, for a given direction and node budget.\<close>

definition options_with :: "pyval \<Rightarrow> pyval \<Rightarrow> options" where
  "options_with d n = \<lparr>direction = d, show_default = False, highlight_starts = True, max_nodes = n\<rparr>"

section \<open>No subscript fails after a successful discovery\<close>

lemma index_of_None_iff: "index_of xs x = None \<longleftrightarrow> x \<notin> set xs"
  by (induction xs) auto

lemma order_index_None_iff: "order_index vo i = None \<longleftrightarrow> i \<notin> set vo"
  by (simp add: order_index_def index_of_None_iff)

lemma order_index_SomeD: "order_index vo i = Some k \<Longrightarrow> i \<in> set vo"
  using order_index_None_iff [of vo i] by auto

lemma mermaid_id_None_iff: "mermaid_id vo i = None \<longleftrightarrow> i \<notin> set vo"
  by (simp add: mermaid_id_def order_index_None_iff)

lemma mermaid_id_SomeD: "mermaid_id vo i = Some m \<Longrightarrow> i \<in> set vo"
  using mermaid_id_None_iff [of vo i] by auto

lemma mermaid_id_known: "i \<in> set vo \<Longrightarrow> \<exists>m. mermaid_id vo i = Some m"
  using mermaid_id_None_iff [of vo i] by (cases "mermaid_id vo i") auto

lemma those_map_Some:
  "(\<And>x. x \<in> set xs \<Longrightarrow> key x \<noteq> None) \<Longrightarrow> \<exists>ks. those (map key xs) = Some ks \<and> length ks = length xs"
proof (induction xs)
  case Nil
  then show ?case by simp
next
  case (Cons x xs)
  then obtain ks where "those (map key xs) = Some ks" "length ks = length xs" by auto
  moreover from Cons.prems obtain k where "key x = Some k" by auto
  ultimately show ?case by simp
qed

lemma those_map_None:
  "x \<in> set xs \<Longrightarrow> key x = None \<Longrightarrow> those (map key xs) = None"
  by (induction xs) (auto split: option.splits)

lemma set_sorted_zip:
  "length ks = length xs \<Longrightarrow> set (map snd (sort_key fst (zip ks xs))) = set xs"
proof -
  assume len: "length ks = length xs"
  have "set (map snd (sort_key fst (zip ks xs))) = set (map snd (zip ks xs))" by simp
  also have "map snd (zip ks xs) = xs" using len by (rule map_snd_zip)
  finally show ?thesis .
qed

lemma sorted_by_Inr:
  assumes "\<And>x. x \<in> set xs \<Longrightarrow> key x \<noteq> None"
  shows "\<exists>ys. sorted_by key xs = Inr ys \<and> set ys = set xs"
proof -
  from those_map_Some [of xs key] assms obtain ks where
    "those (map key xs) = Some ks" "length ks = length xs" by blast
  then show ?thesis using set_sorted_zip [of ks xs] by (simp add: sorted_by_def del: set_map)
qed

lemma sorted_by_InrD:
  assumes "sorted_by key xs = Inr ys"
  shows "set ys = set xs" "\<And>x. x \<in> set xs \<Longrightarrow> key x \<noteq> None" "distinct ys = distinct xs"
proof -
  from assms obtain ks where ks: "those (map key xs) = Some ks"
    and ys: "ys = map snd (sort_key fst (zip ks xs))"
    by (auto simp: sorted_by_def split: option.splits)
  show k: "\<And>x. x \<in> set xs \<Longrightarrow> key x \<noteq> None"
    using ks those_map_None [of _ xs key] by auto
  from those_map_Some [of xs key] k ks have len: "length ks = length xs" by auto
  then show "set ys = set xs" unfolding ys by (rule set_sorted_zip)
  have "mset ys = mset xs"
    unfolding ys by (metis len map_snd_zip mset_map mset_sort)
  then show "distinct ys = distinct xs" by (metis mset_eq_imp_distinct_iff)
qed

lemma set_bucket_append:
  "(\<Union>(k, vs)\<in>set (bucket_append k0 v bs). set vs) = insert v (\<Union>(k, vs)\<in>set bs. set vs)"
  by (induction k0 v bs rule: bucket_append.induct) auto

lemma set_group_edges:
  "(\<Union>(k, vs)\<in>set (group_edges so h vo res). set vs) = set res"
proof -
  have "(\<Union>(k, vs)\<in>set (fold (\<lambda>(s, act, t). bucket_append (edge_container so h vo s t) (s, act, t)) xs bs). set vs)
          = set xs \<union> (\<Union>(k, vs)\<in>set bs. set vs)" for xs bs
    by (induction xs arbitrary: bs) (auto simp: set_bucket_append split: prod.splits)
  from this [of "iter_edges so res" "[]"] show ?thesis by (simp add: group_edges_def)
qed

lemma edge_key_None_iff: "edge_key vo (s, a, t) = None \<longleftrightarrow> s \<notin> set vo \<or> t \<notin> set vo"
  unfolding edge_key_def
  by (auto split: option.splits dest: order_index_SomeD simp flip: order_index_None_iff)

lemma sort_buckets_Inr:
  assumes "\<And>k vs s a t. (k, vs) \<in> set bs \<Longrightarrow> (s, a, t) \<in> set vs \<Longrightarrow> s \<in> set vo \<and> t \<in> set vo"
  shows "\<exists>bs'. sort_buckets vo bs = Inr bs'
           \<and> (\<forall>k vs s a t. (k, vs) \<in> set bs' \<longrightarrow> (s, a, t) \<in> set vs \<longrightarrow> s \<in> set vo \<and> t \<in> set vo)"
  using assms
proof (induction bs)
  case Nil
  then show ?case by simp
next
  case (Cons b bs)
  obtain c es where b: "b = (c, es)" by (cases b)
  have "\<And>e. e \<in> set es \<Longrightarrow> edge_key vo e \<noteq> None"
  proof -
    fix e assume "e \<in> set es"
    with Cons.prems [of c es "fst e" "fst (snd e)" "snd (snd e)"] b
    show "edge_key vo e \<noteq> None"
      using edge_key_None_iff [of vo "fst e" "fst (snd e)" "snd (snd e)"] by auto
  qed
  from sorted_by_Inr [of es "edge_key vo", OF this] obtain es' where
    es': "sorted_by (edge_key vo) es = Inr es'" "set es' = set es" by blast
  from Cons.IH Cons.prems obtain bs' where
    bs': "sort_buckets vo bs = Inr bs'"
    "\<forall>k vs s a t. (k, vs) \<in> set bs' \<longrightarrow> (s, a, t) \<in> set vs \<longrightarrow> s \<in> set vo \<and> t \<in> set vo"
    by (metis list.set_intros(2))
  from es' bs' b Cons.prems [of c es] show ?case by auto
qed

lemma edges_by_container_Inr:
  assumes "closed h (set vo)"
  shows "\<exists>bs. edges_by_container so h vo (render_edges so h vo es) = Inr bs
           \<and> (\<forall>k vs s a t. (k, vs) \<in> set bs \<longrightarrow> (s, a, t) \<in> set vs \<longrightarrow> s \<in> set vo \<and> t \<in> set vo)"
  unfolding edges_by_container_def
proof (rule sort_buckets_Inr)
  fix k vs s a t
  assume "(k, vs) \<in> set (group_edges so h vo (render_edges so h vo es))" "(s, a, t) \<in> set vs"
  then have "(s, a, t) \<in> (\<Union>(k, vs)\<in>set (group_edges so h vo (render_edges so h vo es)). set vs)"
    by blast
  then have "(s, a, t) \<in> set (render_edges so h vo es)" by (simp only: set_group_edges)
  with assms show "s \<in> set vo \<and> t \<in> set vo" by (rule render_edges_within)
qed

declare render_flow.simps [simp del]

text \<open>The two ways in which \<^verbatim>\<open>_render_flow\<close> returns: at once, for a flow that is on the
  rendering stack, or after the block of the flow.\<close>

lemma render_flow_on_stack:
  "fid \<in> rendering_stack st \<Longrightarrow> render_flow c fid indent st = Inr st"
  by (simp add: render_flow.simps)

lemma render_flow_Inr_cases:
  assumes "render_flow c fid indent st = Inr st'"
  obtains (on_stack) "fid \<in> rendering_stack st" "st' = st"
  | (block) mid l st1 children nodes st2 st3 st4 where
      "fid \<notin> rendering_stack st"
      "mermaid_id (c_vo c) fid = Some mid"
      "label_for c fid (st\<lparr>rendering_stack := insert fid (rendering_stack st)\<rparr>) = (l, st1)"
      "child_flow_ids c fid = Inr children"
      "own_nodes c fid = Inr nodes"
      "emit_nodes c (indent @ ''  '') nodes
         (st1\<lparr>lines := lines st1 @
            [subgraph_line indent mid l]\<rparr>) = Inr st2"
      "render_children c children (indent @ ''  '') st2 = Inr st3"
      "emit_edges c (indent @ ''  '') (bucket c (Some fid)) st3 = Inr st4"
      "st' = st4\<lparr>lines := lines st4 @ [indent @ ''end''],
                   rendered_flows := insert fid (rendered_flows st4),
                   rendering_stack := rendering_stack st4 - {fid}\<rparr>"
proof (cases "fid \<in> rendering_stack st")
  case True
  with assms have "st' = st" by (simp add: render_flow_on_stack)
  with True show ?thesis by (rule on_stack)
next
  case False
  note eq = render_flow.simps [of c fid indent st]
  obtain mid where mid: "mermaid_id (c_vo c) fid = Some mid"
    using assms False unfolding eq by (cases "mermaid_id (c_vo c) fid") simp_all
  obtain l st1 where lab:
    "label_for c fid (st\<lparr>rendering_stack := insert fid (rendering_stack st)\<rparr>) = (l, st1)"
    by (cases "label_for c fid (st\<lparr>rendering_stack := insert fid (rendering_stack st)\<rparr>)") auto
  obtain children where ch: "child_flow_ids c fid = Inr children"
    using assms False unfolding eq by (cases "child_flow_ids c fid") (simp_all add: mid lab)
  obtain nodes where no: "own_nodes c fid = Inr nodes"
    using assms False unfolding eq by (cases "own_nodes c fid") (simp_all add: mid lab ch)
  let ?st1 = "st1\<lparr>lines := lines st1 @
            [subgraph_line indent mid l]\<rparr>"
  obtain st2 where en: "emit_nodes c (indent @ ''  '') nodes ?st1 = Inr st2"
    using assms False unfolding eq
    by (cases "emit_nodes c (indent @ ''  '') nodes ?st1") (simp_all add: mid lab ch no)
  obtain st3 where rc: "render_children c children (indent @ ''  '') st2 = Inr st3"
    using assms False unfolding eq
    by (cases "render_children c children (indent @ ''  '') st2") (simp_all add: mid lab ch no en)
  obtain st4 where ee: "emit_edges c (indent @ ''  '') (bucket c (Some fid)) st3 = Inr st4"
    using assms False unfolding eq
    by (cases "emit_edges c (indent @ ''  '') (bucket c (Some fid)) st3")
       (simp_all add: mid lab ch no en rc)
  have "st' = st4\<lparr>lines := lines st4 @ [indent @ ''end''],
                   rendered_flows := insert fid (rendered_flows st4),
                   rendering_stack := rendering_stack st4 - {fid}\<rparr>"
    using assms False unfolding eq by (simp add: mid lab ch no en rc ee)
  with False mid lab ch no en rc ee show ?thesis by (rule block)
qed

lemma render_flow_block:
  assumes "fid \<notin> rendering_stack st"
    "mermaid_id (c_vo c) fid = Some mid"
    "label_for c fid (st\<lparr>rendering_stack := insert fid (rendering_stack st)\<rparr>) = (l, st1)"
    "child_flow_ids c fid = Inr children"
    "own_nodes c fid = Inr nodes"
    "emit_nodes c (indent @ ''  '') nodes
       (st1\<lparr>lines := lines st1 @
          [subgraph_line indent mid l]\<rparr>) = Inr st2"
    "render_children c children (indent @ ''  '') st2 = Inr st3"
    "emit_edges c (indent @ ''  '') (bucket c (Some fid)) st3 = Inr st4"
  shows "render_flow c fid indent st =
           Inr (st4\<lparr>lines := lines st4 @ [indent @ ''end''],
                    rendered_flows := insert fid (rendered_flows st4),
                    rendering_stack := rendering_stack st4 - {fid}\<rparr>)"
  using assms unfolding render_flow.simps [of c fid indent st] by simp

lemma render_children_Cons_Inr:
  "render_children c (x # xs) indent st = Inr st' \<longleftrightarrow>
     (\<exists>st1. render_flow c x indent st = Inr st1 \<and> render_children c xs indent st1 = Inr st')"
  by (auto split: sum.splits)

text \<open>The nodes and edges of a graph that was discovered have identifiers.\<close>

definition ctx_ok :: "ctx \<Rightarrow> bool" where
  "ctx_ok c \<longleftrightarrow>
     closed (c_heap c) (set (c_vo c))
     \<and> (\<forall>k vs s a t. (k, vs) \<in> set (c_buckets c) \<longrightarrow> (s, a, t) \<in> set vs \<longrightarrow>
           s \<in> set (c_vo c) \<and> t \<in> set (c_vo c))"

lemma bucket_known:
  "ctx_ok c \<Longrightarrow> (s, a, t) \<in> set (bucket c k) \<Longrightarrow> s \<in> set (c_vo c) \<and> t \<in> set (c_vo c)"
proof -
  assume ok: "ctx_ok c" and e: "(s, a, t) \<in> set (bucket c k)"
  from e obtain vs where "map_of (c_buckets c) k = Some vs" "(s, a, t) \<in> set vs"
    by (cases "map_of (c_buckets c) k") (auto simp: bucket_def)
  then have "(k, vs) \<in> set (c_buckets c)" by (auto dest: map_of_SomeD)
  with ok \<open>(s, a, t) \<in> set vs\<close> show ?thesis unfolding ctx_ok_def by blast
qed

lemma node_def_Inr:
  "i \<in> set (c_vo c) \<Longrightarrow> \<exists>d st'. node_def c i st = Inr (d, st')"
  using mermaid_id_known [of i "c_vo c"]
  by (auto simp: node_def_def split: prod.splits)

lemma emit_nodes_Inr:
  "set xs \<subseteq> set (c_vo c) \<Longrightarrow> \<exists>st'. emit_nodes c indent xs st = Inr st'"
proof (induction xs arbitrary: st)
  case Nil
  then show ?case by simp
next
  case (Cons i rest)
  then obtain d st1 where "node_def c i st = Inr (d, st1)"
    using node_def_Inr [of i c st] by auto
  with Cons show ?case by simp
qed

lemma edge_line_Inr:
  "s \<in> set (c_vo c) \<Longrightarrow> t \<in> set (c_vo c) \<Longrightarrow> \<exists>l. edge_line c (s, a, t) = Inr l"
  using mermaid_id_known [of s "c_vo c"] mermaid_id_known [of t "c_vo c"]
  by (auto simp: edge_line_def)

lemma emit_edges_Inr:
  "(\<And>s a t. (s, a, t) \<in> set es \<Longrightarrow> s \<in> set (c_vo c) \<and> t \<in> set (c_vo c)) \<Longrightarrow>
     \<exists>st'. emit_edges c indent es st = Inr st'"
proof (induction es arbitrary: st)
  case Nil
  then show ?case by simp
next
  case (Cons e rest)
  obtain s a t where e: "e = (s, a, t)" by (cases e)
  with Cons.prems [of s a t] obtain l where "edge_line c e = Inr l"
    using edge_line_Inr [of s c t a] by auto
  moreover from Cons have "\<exists>st'. emit_edges c indent rest (st\<lparr>lines := lines st @ [indent @ l]\<rparr>) = Inr st'"
    by (metis list.set_intros(2))
  ultimately show ?case by simp
qed

lemma flow_ids_known: "fid \<in> set (flow_ids h vo) \<longleftrightarrow> fid \<in> set vo \<and> flow_at h fid"
  by (auto simp: flow_ids_def)

lemma body_known:
  assumes "closed h (set vo)"
  shows "set (body_by_flow_id h vo fid) \<subseteq> set vo"
  using closed_body [OF assms, of fid] by (auto simp: body_by_flow_id_def flow_ids_known)

lemma child_flow_ids_Inr:
  "\<exists>children. child_flow_ids c fid = Inr children \<and> set children \<subseteq> set (c_vo c)"
proof -
  let ?xs = "filter (\<lambda>nid. nid \<in> set (c_vo c) \<and> flow_at (c_heap c) nid \<and> expanded_flow_ids c nid
                      \<and> container_of c nid = Some fid)
          (iter_oids (c_so c) (body_by_flow_id (c_heap c) (c_vo c) fid))"
  have "\<And>x. x \<in> set ?xs \<Longrightarrow> order_index (c_vo c) x \<noteq> None"
    by (auto simp: order_index_None_iff)
  from sorted_by_Inr [of ?xs "order_index (c_vo c)", OF this]
  show ?thesis unfolding child_flow_ids_def by auto
qed

lemma own_nodes_Inr:
  assumes "ctx_ok c"
  shows "\<exists>nodes. own_nodes c fid = Inr nodes \<and> set nodes \<subseteq> set (c_vo c)"
proof -
  let ?xs = "filter (\<lambda>nid. \<not> is_expanded_known (c_heap c) (c_vo c) nid \<and> container_of c nid = Some fid)
          (iter_oids (c_so c) (body_by_flow_id (c_heap c) (c_vo c) fid))"
  from assms have "closed (c_heap c) (set (c_vo c))" by (simp add: ctx_ok_def)
  from body_known [OF this, of fid] have sub: "set ?xs \<subseteq> set (c_vo c)" by auto
  then have "\<And>x. x \<in> set ?xs \<Longrightarrow> order_index (c_vo c) x \<noteq> None"
    by (auto simp: order_index_None_iff)
  from sorted_by_Inr [of ?xs "order_index (c_vo c)", OF this] sub
  show ?thesis unfolding own_nodes_def by auto
qed

lemma render_flow_Inr:
  "ctx_ok c \<Longrightarrow> fid \<in> set (c_vo c) \<Longrightarrow> \<exists>st'. render_flow c fid indent st = Inr st'"
  "ctx_ok c \<Longrightarrow> set xs \<subseteq> set (c_vo c) \<Longrightarrow> \<exists>st'. render_children c xs indent st = Inr st'"
proof (induction c fid indent st and c xs indent st rule: render_flow_render_children.induct)
  case (1 c fid indent st)
  show ?case
  proof (cases "fid \<in> rendering_stack st")
    case True
    then show ?thesis by (simp add: render_flow_on_stack)
  next
    case False
    from "1.prems"(2) obtain mid where mid: "mermaid_id (c_vo c) fid = Some mid"
      using mermaid_id_known by blast
    obtain l st1 where lab:
      "label_for c fid (st\<lparr>rendering_stack := insert fid (rendering_stack st)\<rparr>) = (l, st1)"
      by (cases "label_for c fid (st\<lparr>rendering_stack := insert fid (rendering_stack st)\<rparr>)") auto
    from child_flow_ids_Inr obtain children where
      ch: "child_flow_ids c fid = Inr children" "set children \<subseteq> set (c_vo c)" by blast
    from own_nodes_Inr [OF "1.prems"(1)] obtain nodes where
      no: "own_nodes c fid = Inr nodes" "set nodes \<subseteq> set (c_vo c)" by blast
    from emit_nodes_Inr [OF no(2)] obtain st2 where
      en: "emit_nodes c (indent @ ''  '') nodes
             (st1\<lparr>lines := lines st1 @
                [subgraph_line indent mid l]\<rparr>) = Inr st2"
      by blast
    from "1.IH" [OF False mid lab [symmetric] ch(1) no(1) en "1.prems"(1) ch(2)] obtain st3 where
      rc: "render_children c children (indent @ ''  '') st2 = Inr st3" by blast
    from emit_edges_Inr [of "bucket c (Some fid)" c] bucket_known [OF "1.prems"(1)] obtain st4 where
      ee: "emit_edges c (indent @ ''  '') (bucket c (Some fid)) st3 = Inr st4" by blast
    from render_flow_block [OF False mid lab ch(1) no(1) en rc ee] show ?thesis by blast
  qed
next
  case (2 c indent st)
  then show ?case by simp
next
  case (3 c x xs indent st)
  from "3.IH"(1) "3.prems" obtain st1 where a: "render_flow c x indent st = Inr st1" by auto
  from "3.IH"(2) [OF a] "3.prems" obtain st' where "render_children c xs indent st1 = Inr st'"
    by auto
  with a show ?case by (auto simp: render_children_Cons_Inr)
qed

section \<open>What rendering adds to the lines and to the warnings\<close>

text \<open>Before the highlight block, rendering only appends lines, only warns about names,
  and leaves the rendering stack as it found it.\<close>

definition grows :: "rstate \<Rightarrow> rstate \<Rightarrow> bool" where
  "grows st st' \<longleftrightarrow>
     (\<exists>L. lines st' = lines st @ L)
     \<and> (\<exists>W. warnings st' = warnings st @ W \<and> NoResolvableStart \<notin> set W)
     \<and> rendering_stack st' = rendering_stack st"

lemma grows_refl [simp]: "grows st st"
  by (simp add: grows_def)

lemma grows_trans: "grows a b \<Longrightarrow> grows b c \<Longrightarrow> grows a c"
  unfolding grows_def
  by (elim conjE exE, intro conjI) (force, force, simp)

lemma grows_line [simp]: "grows st (st\<lparr>lines := lines st @ [l]\<rparr>)"
  by (simp add: grows_def)

lemma label_for_lines: "lines (snd (label_for c i st)) = lines st"
  by (simp add: label_for_def Let_def split: option.split list.split)

lemma label_for_warnings:
  "\<exists>W. warnings (snd (label_for c i st)) = warnings st @ W \<and> NoResolvableStart \<notin> set W"
  by (simp add: label_for_def Let_def split: option.split list.split)

lemma label_for_grows: "label_for c i st = (l, st') \<Longrightarrow> grows st st'"
  using label_for_lines [of c i st] label_for_warnings [of c i st] label_for_stack [of c i st]
  by (simp add: grows_def)

lemma node_def_grows: "node_def c i st = Inr (d, st') \<Longrightarrow> grows st st'"
proof -
  assume "node_def c i st = Inr (d, st')"
  then obtain l where "label_for c i st = (l, st')"
    by (cases "mermaid_id (c_vo c) i"; cases "label_for c i st") (auto simp: node_def_def)
  then show ?thesis by (rule label_for_grows)
qed

lemma emit_nodes_grows: "emit_nodes c indent xs st = Inr st' \<Longrightarrow> grows st st'"
proof (induction xs arbitrary: st)
  case Nil
  then show ?case by simp
next
  case (Cons i rest)
  from Cons.prems obtain d st1 where
    a: "node_def c i st = Inr (d, st1)" and
    b: "emit_nodes c indent rest (st1\<lparr>lines := lines st1 @ [indent @ d]\<rparr>) = Inr st'"
    by (auto split: sum.splits)
  from node_def_grows [OF a] grows_line [of st1 "indent @ d"] Cons.IH [OF b]
  show ?case by (blast intro: grows_trans)
qed

lemma emit_edges_grows: "emit_edges c indent es st = Inr st' \<Longrightarrow> grows st st'"
proof (induction es arbitrary: st)
  case Nil
  then show ?case by simp
next
  case (Cons e rest)
  from Cons.prems obtain l where
    b: "emit_edges c indent rest (st\<lparr>lines := lines st @ [indent @ l]\<rparr>) = Inr st'"
    by (auto split: sum.splits)
  from grows_line [of st "indent @ l"] Cons.IH [OF b] show ?case by (blast intro: grows_trans)
qed

lemma grows_stack_in: "grows (st\<lparr>rendering_stack := S\<rparr>) st1 \<Longrightarrow>
   grows st (st1\<lparr>rendering_stack := rendering_stack st\<rparr>)"
  by (auto simp: grows_def)

lemma render_flow_grows:
  "render_flow c fid indent st = Inr st' \<Longrightarrow> grows st st'"
  "render_children c xs indent st = Inr st' \<Longrightarrow> grows st st'"
proof (induction c fid indent st and c xs indent st arbitrary: st' and st'
       rule: render_flow_render_children.induct)
  case (1 c fid indent st)
  from "1.prems" show ?case
  proof (cases rule: render_flow_Inr_cases)
    case on_stack
    then show ?thesis by simp
  next
    case (block mid l st1 children nodes st2 st3 st4)
    let ?s0 = "st\<lparr>rendering_stack := insert fid (rendering_stack st)\<rparr>"
    have g1: "grows ?s0 st1" using block(3) by (rule label_for_grows)
    have g2: "grows st1 (st1\<lparr>lines := lines st1 @ [subgraph_line indent mid l]\<rparr>)" by simp
    have g3: "grows (st1\<lparr>lines := lines st1 @ [subgraph_line indent mid l]\<rparr>) st2"
      using block(6) by (rule emit_nodes_grows)
    have g4: "grows st2 st3"
      using "1.IH" [OF block(1) block(2) block(3) [symmetric] block(4,5,6,7)] .
    have g5: "grows st3 st4" using block(8) by (rule emit_edges_grows)
    have g: "grows ?s0 st4"
      using g1 g2 g3 g4 g5 by (blast intro: grows_trans)
    then have "rendering_stack st4 - {fid} = rendering_stack st"
      using block(1) by (auto simp: grows_def)
    with g show ?thesis unfolding block(9) by (auto simp: grows_def)
  qed
next
  case (2 c indent st)
  then show ?case by simp
next
  case (3 c x xs indent st)
  from "3.prems" obtain st1 where
    a: "render_flow c x indent st = Inr st1" and b: "render_children c xs indent st1 = Inr st'"
    by (auto split: sum.splits)
  from "3.IH"(1) [OF a] "3.IH"(2) [OF a b] show ?case by (rule grows_trans)
qed

lemma render_top_flows_grows:
  "render_top_flows c root fids st = Inr st' \<Longrightarrow> grows st st'"
proof (induction fids arbitrary: st)
  case Nil
  then show ?case by simp
next
  case (Cons fid rest)
  show ?case
  proof (cases "fid \<noteq> root \<and> expanded_flow_ids c fid \<and> container_of c fid = None
         \<and> fid \<notin> rendered_flows st")
    case True
    with Cons.prems obtain st1 where
      a: "render_flow c fid ''  '' st = Inr st1" and b: "render_top_flows c root rest st1 = Inr st'"
      by (auto split: sum.splits)
    from render_flow_grows(1) [OF a] Cons.IH [OF b] show ?thesis by (rule grows_trans)
  next
    case False
    with Cons show ?thesis by auto
  qed
qed

lemma render_top_flows_Inr:
  "ctx_ok c \<Longrightarrow> set fids \<subseteq> set (c_vo c) \<Longrightarrow> \<exists>st'. render_top_flows c root fids st = Inr st'"
proof (induction fids arbitrary: st)
  case Nil
  then show ?case by simp
next
  case (Cons fid rest)
  from render_flow_Inr(1) [OF Cons.prems(1), of fid "''  ''" st] Cons.prems(2)
  obtain st1 where a: "render_flow c fid ''  '' st = Inr st1" by auto
  from Cons.IH [OF Cons.prems(1), of st1] Cons.IH [OF Cons.prems(1), of st] Cons.prems(2) a
  show ?case by auto
qed

text \<open>The highlight block: one warning for every flow without a resolvable start, one
  highlighted identity for every other flow.\<close>

definition unresolved :: "ctx \<Rightarrow> oid \<Rightarrow> bool" where
  "unresolved c fid =
     (case real_start (c_heap c) fid of None \<Rightarrow> True | Some rs \<Rightarrow> rs \<notin> set (c_vo c))"

lemma highlight_loop_Inr:
  "set fids \<subseteq> set (c_vo c) \<Longrightarrow>
     \<exists>hl' st'. highlight_loop c fids hl st = Inr (hl', st')
       \<and> lines st' = lines st
       \<and> warnings st' = warnings st @ replicate (length (filter (unresolved c) fids)) NoResolvableStart
       \<and> set hl' = set hl \<union> {rs. \<exists>fid\<in>set fids. real_start (c_heap c) fid = Some rs \<and> rs \<in> set (c_vo c)}"
proof (induction fids arbitrary: hl st)
  case Nil
  then show ?case by simp
next
  case (Cons fid rest)
  then have known: "fid \<in> set (c_vo c)" and rest: "set rest \<subseteq> set (c_vo c)" by auto
  show ?case
  proof (cases "real_start (c_heap c) fid")
    case None
    from Cons.IH [OF rest, of hl "st\<lparr>warnings := warnings st @ [NoResolvableStart]\<rparr>"] None known
    show ?thesis by (auto simp: unresolved_def replicate_append_same)
  next
    case (Some rs)
    show ?thesis
    proof (cases "rs \<in> set (c_vo c)")
      case True
      with Cons.IH [OF rest, of "set_add rs hl" st] Some known
      show ?thesis by (auto simp: unresolved_def mermaid_id_None_iff)
    next
      case False
      with Cons.IH [OF rest, of hl "st\<lparr>warnings := warnings st @ [NoResolvableStart]\<rparr>"] Some known
      show ?thesis by (auto simp: unresolved_def mermaid_id_None_iff replicate_append_same)
    qed
  qed
qed

lemma emit_classes_Inr:
  "set rids \<subseteq> set (c_vo c) \<Longrightarrow>
     \<exists>st' L. emit_classes c rids st = Inr st' \<and> lines st' = lines st @ L
        \<and> warnings st' = warnings st"
proof (induction rids arbitrary: st)
  case Nil
  then show ?case by simp
next
  case (Cons rid rest)
  then obtain m where m: "mermaid_id (c_vo c) rid = Some m"
    using mermaid_id_known [of rid "c_vo c"] by auto
  from Cons.IH [of "st\<lparr>lines := lines st @ [''  class '' @ m @ '' pf_true_start'']\<rparr>"] Cons.prems
  obtain st' L where "emit_classes c rest (st\<lparr>lines := lines st @ [''  class '' @ m @ '' pf_true_start'']\<rparr>) = Inr st'"
    "lines st' = (lines st @ [''  class '' @ m @ '' pf_true_start'']) @ L" "warnings st' = warnings st"
    by auto
  with m show ?case by auto
qed

lemma highlight_Inr:
  "\<exists>st' L. highlight c st = Inr st' \<and> lines st' = lines st @ L
     \<and> warnings st' = warnings st @
          replicate (length (filter (unresolved c) (flow_ids (c_heap c) (c_vo c)))) NoResolvableStart"
proof -
  have sub: "set (flow_ids (c_heap c) (c_vo c)) \<subseteq> set (c_vo c)" by (auto simp: flow_ids_def)
  from highlight_loop_Inr [OF sub, of "[]" st] obtain hl st1 where
    hl: "highlight_loop c (flow_ids (c_heap c) (c_vo c)) [] st = Inr (hl, st1)"
    "lines st1 = lines st"
    "warnings st1 = warnings st @
          replicate (length (filter (unresolved c) (flow_ids (c_heap c) (c_vo c)))) NoResolvableStart"
    "set hl \<subseteq> set (c_vo c)"
    by auto
  show ?thesis
  proof (cases "hl = []")
    case True
    with hl show ?thesis by (simp add: highlight_def)
  next
    case False
    from hl(4) have "\<And>x. x \<in> set (iter_oids (c_so c) hl) \<Longrightarrow> order_index (c_vo c) x \<noteq> None"
      by (auto simp: order_index_None_iff)
    from sorted_by_Inr [of "iter_oids (c_so c) hl" "order_index (c_vo c)", OF this]
    obtain rids where rids: "sorted_by (order_index (c_vo c)) (iter_oids (c_so c) hl) = Inr rids"
      "set rids = set hl" by auto
    let ?st2 = "st1\<lparr>lines := lines st1 @
                        [''  classDef pf_true_start stroke:#d33,stroke-width:3px,fill:#fff5f5;'']\<rparr>"
    from emit_classes_Inr [of rids c ?st2] rids(2) hl(4) obtain st' L where
      "emit_classes c rids ?st2 = Inr st'" "lines st' = lines ?st2 @ L" "warnings st' = warnings ?st2"
      by auto
    with False hl rids(1) show ?thesis by (simp add: highlight_def)
  qed
qed

section \<open>The whole call succeeds on a discovered graph\<close>

lemma unresolved_closed:
  assumes "closed (c_heap c) (set (c_vo c))" "fid \<in> set (flow_ids (c_heap c) (c_vo c))"
  shows "unresolved c fid \<longleftrightarrow> real_start (c_heap c) fid = None"
proof (cases "real_start (c_heap c) fid")
  case None
  then show ?thesis by (simp add: unresolved_def)
next
  case (Some rs)
  from assms(2) have "fid \<in> set (c_vo c)" "flow_at (c_heap c) fid" by (auto simp: flow_ids_def)
  from real_start_closed [OF assms(1) this Some] Some show ?thesis by (simp add: unresolved_def)
qed

lemma filter_unresolved_closed:
  assumes "closed (c_heap c) (set (c_vo c))"
  shows "filter (unresolved c) (flow_ids (c_heap c) (c_vo c))
       = filter (\<lambda>fid. real_start (c_heap c) fid = None) (flow_ids (c_heap c) (c_vo c))"
  by (rule filter_cong [OF refl]) (use unresolved_closed [OF assms] in auto)

lemma start_target_known:
  assumes "closed h (set vo)" "root \<in> set vo"
  shows "(if is_expanded_flow h root
          then (case real_start h root of Some rs \<Rightarrow> rs | None \<Rightarrow> root)
          else root) \<in> set vo"
proof (cases "is_expanded_flow h root")
  case False
  with assms show ?thesis by simp
next
  case True
  then obtain rs where "real_start h root = Some rs" "flow_at h root"
    by (auto dest: is_expanded_flow_D)
  with real_start_closed [OF assms, of rs] True show ?thesis by simp
qed

lemma top_nodes_known: "set (top_nodes c) \<subseteq> set (c_vo c)"
  by (auto simp: top_nodes_def)

lemma grows_rstate0D:
  assumes "grows (rstate0 ws ls) st"
  shows "\<exists>L W. lines st = ls @ L \<and> warnings st = ws @ W \<and> NoResolvableStart \<notin> set W"
  using assms by (auto simp: grows_def rstate0_def)

lemma render_Inr:
  assumes ok: "ctx_ok c" and root: "root \<in> set (c_vo c)"
  shows "\<exists>st L W. render c root dir_u hl ws = Inr st
     \<and> lines st = [fence @ ''mermaid'', ''flowchart '' @ dir_u] @ L
     \<and> NoResolvableStart \<notin> set W
     \<and> warnings st = ws @ W @
         (if hl then replicate (length (filter (\<lambda>fid. real_start (c_heap c) fid = None)
                                   (flow_ids (c_heap c) (c_vo c)))) NoResolvableStart
          else [])"
proof -
  from ok have cl: "closed (c_heap c) (set (c_vo c))" by (simp add: ctx_ok_def)
  from start_target_known [OF cl root] obtain m where m:
    "mermaid_id (c_vo c)
       (if is_expanded_flow (c_heap c) root
        then (case real_start (c_heap c) root of Some rs \<Rightarrow> rs | None \<Rightarrow> root)
        else root) = Some m"
    using mermaid_id_known by blast
  define st0 where "st0 = rstate0 ws (header_lines dir_u m)"
  obtain st1 where s1: "(if expanded_flow_ids c root then render_flow c root ''  '' st0 else Inr st0)
                          = Inr st1" and g1: "grows st0 st1"
  proof (cases "expanded_flow_ids c root")
    case True
    from render_flow_Inr(1) [OF ok root, of "''  ''" st0] obtain st1 where
      "render_flow c root ''  '' st0 = Inr st1" by blast
    with True render_flow_grows(1) [of c root "''  ''" st0 st1] that show ?thesis by simp
  next
    case False
    with that [of st0] show ?thesis by simp
  qed
  have "set (flow_ids (c_heap c) (c_vo c)) \<subseteq> set (c_vo c)" by (auto simp: flow_ids_def)
  from render_top_flows_Inr [OF ok this, of root st1] obtain st2 where
    s2: "render_top_flows c root (flow_ids (c_heap c) (c_vo c)) st1 = Inr st2" by blast
  then have g2: "grows st1 st2" by (rule render_top_flows_grows)
  from emit_nodes_Inr [OF top_nodes_known, of c "''  ''" st2] obtain st3 where
    s3: "emit_nodes c ''  '' (top_nodes c) st2 = Inr st3" by blast
  then have g3: "grows st2 st3" by (rule emit_nodes_grows)
  from emit_edges_Inr [of "bucket c None" c "''  ''" st3] bucket_known [OF ok] obtain st4 where
    s4: "emit_edges c ''  '' (bucket c None) st3 = Inr st4" by blast
  then have g4: "grows st3 st4" by (rule emit_edges_grows)
  from g1 g2 g3 g4 have "grows st0 st4" by (blast intro: grows_trans)
  from grows_rstate0D [OF this [unfolded st0_def]] obtain L W where
    l4: "lines st4 = header_lines dir_u m @ L"
    and w4: "warnings st4 = ws @ W" "NoResolvableStart \<notin> set W" by blast
  obtain st5 L' where
    s5: "(if hl then highlight c st4 else Inr st4) = Inr st5" and
    l5: "lines st5 = lines st4 @ L'" and
    w5: "warnings st5 = warnings st4 @
         (if hl then replicate (length (filter (\<lambda>fid. real_start (c_heap c) fid = None)
                                   (flow_ids (c_heap c) (c_vo c)))) NoResolvableStart
          else [])"
  proof (cases hl)
    case True
    from highlight_Inr [of c st4] obtain st5 L' where
      "highlight c st4 = Inr st5" "lines st5 = lines st4 @ L'"
      "warnings st5 = warnings st4 @
          replicate (length (filter (unresolved c) (flow_ids (c_heap c) (c_vo c)))) NoResolvableStart"
      by blast
    with True that [of st5 L'] filter_unresolved_closed [OF cl] show ?thesis by simp
  next
    case False
    with that [of st4 "[]"] show ?thesis by simp
  qed
  have "render c root dir_u hl ws = Inr (st5\<lparr>lines := lines st5 @ [fence]\<rparr>)"
    by (simp only: render_def m option.case s1 [unfolded st0_def] sum.case s2 s3 s4 s5)
  moreover have "lines (st5\<lparr>lines := lines st5 @ [fence]\<rparr>) =
      [fence @ ''mermaid'', ''flowchart '' @ dir_u] @ ([''  start((Start)) --> '' @ m] @ L @ L' @ [fence])"
    using l4 l5 by (simp add: header_lines_def)
  moreover have "warnings (st5\<lparr>lines := lines st5 @ [fence]\<rparr>) = ws @ W @
         (if hl then replicate (length (filter (\<lambda>fid. real_start (c_heap c) fid = None)
                                   (flow_ids (c_heap c) (c_vo c)))) NoResolvableStart
          else [])"
    using w4 w5 by simp
  ultimately show ?thesis using w4(2) by blast
qed

lemma visualize_lines_direction_error:
  "direction_u (direction opts) = Inl e \<Longrightarrow> visualize_lines so h root ns opts = Inl e"
  by (simp add: visualize_lines_def)

lemma visualize_lines_direction_invalid:
  "direction_u (direction opts) = Inr d \<Longrightarrow> d \<notin> {''LR'', ''RL'', ''TB'', ''TD'', ''BT''} \<Longrightarrow>
     visualize_lines so h root ns opts = Inl (ValueError ''direction must be one of LR/RL/TB/TD/BT'')"
  by (simp add: visualize_lines_def)

lemma visualize_lines_budget_invalid:
  "direction_u (direction opts) = Inr d \<Longrightarrow> d \<in> {''LR'', ''RL'', ''TB'', ''TD'', ''BT''} \<Longrightarrow>
   (\<And>n. max_nodes opts = PInt n \<Longrightarrow> n \<le> 0) \<Longrightarrow>
     visualize_lines so h root ns opts = Inl (ValueError ''max_nodes must be a positive integer'')"
  by (cases "max_nodes opts") (auto simp: visualize_lines_def)

lemma visualize_lines_budget_exceeded:
  assumes "direction_u (direction opts) = Inr d" "d \<in> {''LR'', ''RL'', ''TB'', ''TD'', ''BT''}"
    and "max_nodes opts = PInt n" "0 < n" "n < int (card (reach h root))"
  shows "visualize_lines so h root ns opts = Inl (RuntimeError ''max_nodes exceeded'')"
proof -
  from discover_succeeds_iff [OF assms(4), of h root] assms(5)
  obtain e where e: "discover h n root = Inl e" by (cases "discover h n root") auto
  from discover_Inl(1) [OF e] e assms(1-4) show ?thesis
    by (auto simp: visualize_lines_def)
qed

lemma visualize_lines_Inr:
  assumes d: "direction_u (direction opts) = Inr d" "d \<in> {''LR'', ''RL'', ''TB'', ''TD'', ''BT''}"
    and n: "max_nodes opts = PInt n" "0 < n" and r: "int (card (reach h root)) \<le> n"
  shows "\<exists>vo es L W. discover h n root = Inr (vo, es)
     \<and> NoResolvableStart \<notin> set W
     \<and> visualize_lines so h root ns opts =
          Inr ([fence @ ''mermaid'', ''flowchart '' @ d] @ L,
               (if ns = [] then [MissingNamespace] else []) @ W @
               (if highlight_starts opts
                then replicate (length (filter (\<lambda>fid. real_start h fid = None) (flow_ids h vo)))
                       NoResolvableStart
                else []))"
proof -
  from discover_succeeds_iff [OF n(2), of h root] r obtain vo es where
    disc: "discover h n root = Inr (vo, es)" by auto
  note cl = discover_closed(1,2) [OF disc]
  from edges_by_container_Inr [OF cl(1), of so es] obtain bs where
    bs: "edges_by_container so h vo (render_edges so h vo es) = Inr bs"
    "\<forall>k vs s a t. (k, vs) \<in> set bs \<longrightarrow> (s, a, t) \<in> set vs \<longrightarrow> s \<in> set vo \<and> t \<in> set vo"
    by blast
  define c where "c = \<lparr>c_so = so, c_heap = h, c_vo = vo, c_names = names_by_obj_id h ns,
                       c_show_default = show_default opts, c_buckets = bs\<rparr>"
  have ok: "ctx_ok c" using cl(1) bs(2) by (simp add: ctx_ok_def c_def)
  have root: "root \<in> set (c_vo c)" using cl(2) by (simp add: c_def)
  from render_Inr [OF ok root, of d "highlight_starts opts" "if ns = [] then [MissingNamespace] else []"]
  obtain st L W where
    st: "render c root d (highlight_starts opts) (if ns = [] then [MissingNamespace] else []) = Inr st"
    "lines st = [fence @ ''mermaid'', ''flowchart '' @ d] @ L"
    "NoResolvableStart \<notin> set W"
    "warnings st = (if ns = [] then [MissingNamespace] else []) @ W @
         (if highlight_starts opts
          then replicate (length (filter (\<lambda>fid. real_start h fid = None) (flow_ids h vo)))
                 NoResolvableStart
          else [])"
    by (auto simp: c_def)
  have "visualize_lines so h root ns opts = Inr (lines st, warnings st)"
    using d(2) n(2)
    by (simp only: visualize_lines_def d(1) sum.case n(1) pyval.case disc prod.case bs(1)
          st(1) [unfolded c_def] if_False if_True not_le [symmetric] simp_thms)
  with disc st(2,3,4) show ?thesis by metis
qed

lemma visualize_def_Inr:
  "visualize_lines so h root ns opts = Inr (ls, ws) \<Longrightarrow>
     visualize so h root ns opts = Inr (join_lines ls, ws)"
  by (simp add: visualize_def)

lemma visualize_def_Inl:
  "visualize_lines so h root ns opts = Inl e \<Longrightarrow> visualize so h root ns opts = Inl e"
  by (simp add: visualize_def)

lemma visualize_lines_InrD:
  assumes d: "direction_u (direction opts) = Inr d" "d \<in> {''LR'', ''RL'', ''TB'', ''TD'', ''BT''}"
    and r: "visualize_lines so h root ns opts = Inr (ls, ws)"
  shows "\<exists>n. max_nodes opts = PInt n \<and> 0 < n \<and> int (card (reach h root)) \<le> n"
proof (rule ccontr)
  assume neg: "\<not> ?thesis"
  show False
  proof (cases "\<exists>n. max_nodes opts = PInt n \<and> 0 < n")
    case True
    then obtain n where n: "max_nodes opts = PInt n" "0 < n" by blast
    with neg have "n < int (card (reach h root))" by auto
    from visualize_lines_budget_exceeded [OF d n this, of so ns] r show False by simp
  next
    case False
    then have "\<And>n. max_nodes opts = PInt n \<Longrightarrow> n \<le> 0" by auto
    from visualize_lines_budget_invalid [OF d this, of so h root ns] r show False by simp
  qed
qed

lemma direction_u_falsy:
  "d \<in> {PNone, PStr [], PInt 0} \<Longrightarrow> direction_u d = Inr ''LR''"
  by (auto simp: direction_u_def upper_def upper_char_def)

lemma direction_u_LR: "direction_u (PStr ''LR'') = Inr ''LR''"
  by (simp add: direction_u_def upper_def upper_char_def)

lemma direction_u_str: "s \<noteq> [] \<Longrightarrow> direction_u (PStr s) = Inr (upper s)"
  by (simp add: direction_u_def)

lemma visualize_lines_direction_cong:
  assumes "direction_u (direction opts) = direction_u (direction opts')"
    "show_default opts = show_default opts'" "highlight_starts opts = highlight_starts opts'"
    "max_nodes opts = max_nodes opts'"
  shows "visualize_lines so h root ns opts = visualize_lines so h root ns opts'"
  unfolding visualize_lines_def assms ..

lemma count_list_replicate_other:
  "x \<notin> set A \<Longrightarrow> x \<notin> set W \<Longrightarrow> count_list (A @ W @ replicate k x) x = k"
  by (induction k) (simp_all add: count_list_0_iff)

section \<open>The lines that open a block\<close>

text \<open>A line opens the block of the flow with identifier \<open>mid\<close> when, after its
  indentation, it starts with \<^verbatim>\<open>subgraph subflow_\<close>, the identifier and a bracket.\<close>

definition opens_block :: "string \<Rightarrow> string \<Rightarrow> bool" where
  "opens_block mid line =
     (take (length (''subgraph subflow_'' @ mid @ ''['')) (dropWhile (\<lambda>ch. ch = CHR '' '') line)
        = ''subgraph subflow_'' @ mid @ ''['')"

definition block_count :: "string \<Rightarrow> string list \<Rightarrow> nat" where
  "block_count mid ls = length (filter (opens_block mid) ls)"

definition spaces :: "string \<Rightarrow> bool" where
  "spaces s = (set s \<subseteq> {CHR '' ''})"

lemma block_count_append [simp]:
  "block_count mid (xs @ ys) = block_count mid xs + block_count mid ys"
  by (simp add: block_count_def)

lemma block_count_Nil [simp]: "block_count mid [] = 0"
  by (simp add: block_count_def)

lemma block_count_single: "block_count mid [l] = (if opens_block mid l then 1 else 0)"
  by (simp add: block_count_def)

lemma spaces_simps [simp]: "spaces []" "spaces ''  ''" "spaces (a @ b) = (spaces a \<and> spaces b)"
  by (auto simp: spaces_def)

lemma dropWhile_spaces:
  "spaces ind \<Longrightarrow> x \<noteq> CHR '' '' \<Longrightarrow>
     dropWhile (\<lambda>ch. ch = CHR '' '') (ind @ x # xs) = x # xs"
  by (induction ind) (auto simp: spaces_def)

lemma not_opens_other:
  "spaces ind \<Longrightarrow> x \<noteq> CHR '' '' \<Longrightarrow> x \<noteq> CHR ''s'' \<Longrightarrow> \<not> opens_block mid (ind @ x # xs)"
  by (simp add: opens_block_def dropWhile_spaces)

declare str_nat.simps [simp del]

lemma digit_char_code: "k < 10 \<Longrightarrow> of_char (digit_char k) = (48 + k :: nat)"
  by simp

lemma str_nat_digits: "ch \<in> set (str_nat n) \<Longrightarrow> (of_char ch :: nat) < 58"
proof (induction n rule: str_nat.induct)
  case (1 n)
  show ?case
  proof (cases "n < 10")
    case True
    with "1.prems" have "ch = digit_char n" by (subst (asm) str_nat.simps) simp
    with True digit_char_code [of n] show ?thesis by (simp del: digit_char.simps)
  next
    case False
    with "1.prems" have "ch \<in> set (str_nat (n div 10)) \<or> ch = digit_char (n mod 10)"
      by (subst (asm) str_nat.simps) auto
    then show ?thesis
    proof
      assume "ch \<in> set (str_nat (n div 10))"
      with 1 False show ?thesis by simp
    next
      assume "ch = digit_char (n mod 10)"
      with digit_char_code [of "n mod 10"] show ?thesis by (simp del: digit_char.simps)
    qed
  qed
qed

definition nat_of_str :: "string \<Rightarrow> nat" where
  "nat_of_str s = foldl (\<lambda>a ch. 10 * a + (of_char ch - 48)) 0 s"

lemma nat_of_str_snoc: "nat_of_str (s @ [ch]) = 10 * nat_of_str s + (of_char ch - 48)"
  by (simp add: nat_of_str_def)

lemma nat_of_str_digit: "k < 10 \<Longrightarrow> nat_of_str [digit_char k] = k"
  using nat_of_str_snoc [of "[]" "digit_char k"] digit_char_code [of k]
  by (simp add: nat_of_str_def del: digit_char.simps)

lemma nat_of_str_nat: "nat_of_str (str_nat n) = n"
proof (induction n rule: str_nat.induct)
  case (1 n)
  show ?case
  proof (cases "n < 10")
    case True
    then have "str_nat n = [digit_char n]" by (subst str_nat.simps) simp
    with True show ?thesis by (simp only: nat_of_str_digit)
  next
    case False
    then have ih: "nat_of_str (str_nat (n div 10)) = n div 10" using 1 by simp
    from False have "str_nat n = str_nat (n div 10) @ [digit_char (n mod 10)]"
      by (subst str_nat.simps) simp
    then have "nat_of_str (str_nat n) = 10 * (n div 10) + (of_char (digit_char (n mod 10)) - 48)"
      by (simp only: nat_of_str_snoc ih)
    also have "of_char (digit_char (n mod 10)) - 48 = n mod 10"
      using digit_char_code [of "n mod 10"] by (simp del: digit_char.simps)
    finally show ?thesis by simp
  qed
qed

lemma str_nat_inj: "str_nat a = str_nat b \<Longrightarrow> a = b"
  by (metis nat_of_str_nat)

lemma index_of_inj: "index_of xs a = Some k \<Longrightarrow> index_of xs b = Some k \<Longrightarrow> a = b"
  by (induction xs arbitrary: k) (auto split: if_splits)

lemma mermaid_id_inj:
  "mermaid_id vo a = Some m \<Longrightarrow> mermaid_id vo b = Some m \<Longrightarrow> a = b"
  by (auto simp: mermaid_id_def order_index_def simp del: str_nat.simps
        dest!: str_nat_inj dest: index_of_inj)

lemma mermaid_id_form:
  "mermaid_id vo a = Some m \<Longrightarrow> \<exists>ds. m = CHR ''n'' # ds \<and> CHR ''['' \<notin> set m"
  using str_nat_digits [of "CHR ''[''"] by (auto simp: mermaid_id_def simp del: str_nat.simps)

lemma take_delimited:
  assumes "c \<notin> set a" "c \<notin> set b" "take (Suc (length a)) (b @ c # r) = a @ [c]"
  shows "a = b"
proof -
  have nth: "(b @ c # r) ! i = (a @ [c]) ! i" if "i \<le> length a" for i
    using that assms(3) by (metis le_imp_less_Suc nth_take)
  have "length a = length b"
  proof (rule ccontr)
    assume "length a \<noteq> length b"
    then consider "length a < length b" | "length b < length a" by linarith
    then show False
    proof cases
      case 1
      with nth [of "length a"] have "b ! length a = c" by (simp add: nth_append)
      with 1 assms(2) show False by (metis nth_mem)
    next
      case 2
      with nth [of "length b"] have "a ! length b = c" by (simp add: nth_append)
      with 2 assms(1) show False by (metis nth_mem)
    qed
  qed
  moreover have "a ! i = b ! i" if "i < length a" for i
    using nth [of i] that \<open>length a = length b\<close> by (simp add: nth_append)
  ultimately show ?thesis by (simp add: list_eq_iff_nth_eq)
qed

lemma opens_block_subgraph_line:
  assumes "spaces ind" "CHR ''['' \<notin> set mid" "CHR ''['' \<notin> set mid'"
  shows "opens_block mid (subgraph_line ind mid' l) \<longleftrightarrow> mid = mid'"
proof -
  have d: "dropWhile (\<lambda>ch. ch = CHR '' '') (subgraph_line ind mid' l)
             = ''subgraph subflow_'' @ mid' @ ''['' @ escape l False @ '']''"
    using dropWhile_spaces [OF assms(1), of "CHR ''s''"] by (simp add: subgraph_line_def)
  show ?thesis
  proof
    assume "opens_block mid (subgraph_line ind mid' l)"
    then have "take (Suc (length mid)) (mid' @ CHR ''['' # (escape l False @ '']'')) = mid @ ''[''"
      unfolding opens_block_def d by simp
    from take_delimited [OF assms(2,3) this] show "mid = mid'" .
  next
    assume "mid = mid'"
    then show "opens_block mid (subgraph_line ind mid' l)"
      unfolding opens_block_def d by simp
  qed
qed

section \<open>Chains of containers\<close>

text \<open>\<open>anc c k x\<close> is the \<open>k\<close>-th container above \<open>x\<close>. A flow \<open>g\<close> lies below \<open>f\<close> outside
  \<open>S\<close> when the chain of containers from \<open>g\<close> reaches \<open>f\<close> without passing through \<open>S\<close>:
  these are the flows that a call of \<^verbatim>\<open>_render_flow\<close> for \<open>f\<close> with rendering stack \<open>S\<close>
  can reach.\<close>

fun anc :: "ctx \<Rightarrow> nat \<Rightarrow> oid \<Rightarrow> oid option" where
  "anc c 0 x = Some x"
| "anc c (Suc k) x = (case anc c k x of None \<Rightarrow> None | Some y \<Rightarrow> container_of c y)"

definition below :: "ctx \<Rightarrow> oid set \<Rightarrow> oid \<Rightarrow> oid \<Rightarrow> bool" where
  "below c S f g \<longleftrightarrow> (\<exists>k. anc c k g = Some f \<and> (\<forall>j\<le>k. \<forall>y. anc c j g = Some y \<longrightarrow> y \<notin> S))"

definition blocked :: "ctx \<Rightarrow> oid set \<Rightarrow> oid \<Rightarrow> bool" where
  "blocked c S x = (case container_of c x of None \<Rightarrow> True | Some p \<Rightarrow> p \<in> S)"

lemma anc_None_mono: "anc c j x = None \<Longrightarrow> j \<le> k \<Longrightarrow> anc c k x = None"
  by (induction k) (auto simp: le_Suc_eq)

lemma below_self: "f \<notin> S \<Longrightarrow> below c S f f"
  unfolding below_def by (rule exI [of _ 0]) simp

lemma below_outside: "below c S f g \<Longrightarrow> f \<notin> S \<and> g \<notin> S"
  unfolding below_def by (metis anc.simps(1) le0 order_refl)

lemma below_child:
  assumes "container_of c x = Some f" "f \<notin> S" "below c (insert f S) x g"
  shows "below c S f g"
proof -
  from assms(3) obtain k where k: "anc c k g = Some x"
    "\<forall>j\<le>k. \<forall>y. anc c j g = Some y \<longrightarrow> y \<notin> insert f S"
    by (auto simp: below_def)
  have "anc c (Suc k) g = Some f" using k(1) assms(1) by simp
  moreover have "\<forall>j\<le>Suc k. \<forall>y. anc c j g = Some y \<longrightarrow> y \<notin> S"
  proof (intro allI impI)
    fix j y assume "j \<le> Suc k" "anc c j g = Some y"
    show "y \<notin> S"
    proof (cases "j = Suc k")
      case True
      with \<open>anc c j g = Some y\<close> \<open>anc c (Suc k) g = Some f\<close> assms(2) show ?thesis by simp
    next
      case False
      with \<open>j \<le> Suc k\<close> have "j \<le> k" by simp
      with k(2) \<open>anc c j g = Some y\<close> show ?thesis by blast
    qed
  qed
  ultimately show ?thesis unfolding below_def by blast
qed

lemma below_apart:
  assumes "below c S x g" "below c S x' g" "blocked c S x" "blocked c S x'"
  shows "x = x'"
proof -
  from assms(1) obtain k where k: "anc c k g = Some x"
    "\<And>j y. j \<le> k \<Longrightarrow> anc c j g = Some y \<Longrightarrow> y \<notin> S"
    by (auto simp: below_def)
  from assms(2) obtain k' where k': "anc c k' g = Some x'"
    "\<And>j y. j \<le> k' \<Longrightarrow> anc c j g = Some y \<Longrightarrow> y \<notin> S"
    by (auto simp: below_def)
  have step: False
    if a: "anc c i g = Some u" and b: "anc c i' g = Some u'" and lt: "i < i'"
      and bl: "blocked c S u" and out: "\<And>j y. j \<le> i' \<Longrightarrow> anc c j g = Some y \<Longrightarrow> y \<notin> S"
    for i i' u u'
  proof (cases "container_of c u")
    case None
    with a have "anc c (Suc i) g = None" by simp
    from anc_None_mono [OF this, of i'] lt b show False by simp
  next
    case (Some p)
    with a have "anc c (Suc i) g = Some p" by simp
    from out [OF _ this] lt have "p \<notin> S" by simp
    with bl Some show False by (simp add: blocked_def)
  qed
  show ?thesis
  proof (rule ccontr)
    assume ne: "x \<noteq> x'"
    with k(1) k'(1) have "k \<noteq> k'" by auto
    then consider "k < k'" | "k' < k" by linarith
    then show False
    proof cases
      case 1
      from step [OF k(1) k'(1) 1 assms(3) k'(2)] show False .
    next
      case 2
      from step [OF k'(1) k(1) 2 assms(4) k(2)] show False .
    qed
  qed
qed

section \<open>Every flow opens at most one block\<close>

text \<open>\<open>may_open c S xs mid\<close> is 1 when \<open>mid\<close> is the identifier of a flow that lies below one of
  \<open>xs\<close> outside \<open>S\<close>, and 0 otherwise: it bounds the number of lines that the calls of
  \<^verbatim>\<open>_render_flow\<close> for \<open>xs\<close> add for \<open>mid\<close>.\<close>

definition may_open :: "ctx \<Rightarrow> oid set \<Rightarrow> oid list \<Rightarrow> string \<Rightarrow> nat" where
  "may_open c S xs mid =
     (if \<exists>g x. x \<in> set xs \<and> mermaid_id (c_vo c) g = Some mid \<and> below c S x g then 1 else 0)"

lemma node_def_form:
  "node_def c i st = Inr (d, st') \<Longrightarrow> lines st' = lines st \<and> (\<exists>r. d = CHR ''n'' # r)"
  using label_for_lines [of c i st]
  by (auto simp: node_def_def mermaid_id_def split: option.splits prod.splits)

lemma emit_nodes_blocks:
  "emit_nodes c ind xs st = Inr st' \<Longrightarrow> spaces ind \<Longrightarrow>
     block_count mid (lines st') = block_count mid (lines st)"
proof (induction xs arbitrary: st)
  case Nil
  then show ?case by simp
next
  case (Cons i rest)
  from Cons.prems(1) obtain d st1 where
    a: "node_def c i st = Inr (d, st1)" and
    b: "emit_nodes c ind rest (st1\<lparr>lines := lines st1 @ [ind @ d]\<rparr>) = Inr st'"
    by (auto split: sum.splits)
  from node_def_form [OF a] obtain r where r: "lines st1 = lines st" "d = CHR ''n'' # r" by auto
  have "\<not> opens_block mid (ind @ d)"
    unfolding r(2) by (rule not_opens_other [OF Cons.prems(2)]) simp_all
  with Cons.IH [OF b Cons.prems(2)] r(1) show ?case by (simp add: block_count_single)
qed

lemma edge_line_form: "edge_line c e = Inr l \<Longrightarrow> \<exists>r. l = CHR ''n'' # r"
  by (cases e) (auto simp: edge_line_def mermaid_id_def split: option.splits if_splits)

lemma emit_edges_blocks:
  "emit_edges c ind es st = Inr st' \<Longrightarrow> spaces ind \<Longrightarrow>
     block_count mid (lines st') = block_count mid (lines st)"
proof (induction es arbitrary: st)
  case Nil
  then show ?case by simp
next
  case (Cons e rest)
  from Cons.prems(1) obtain l where
    a: "edge_line c e = Inr l" and
    b: "emit_edges c ind rest (st\<lparr>lines := lines st @ [ind @ l]\<rparr>) = Inr st'"
    by (auto split: sum.splits)
  from edge_line_form [OF a] obtain r where r: "l = CHR ''n'' # r" by auto
  have "\<not> opens_block mid (ind @ l)"
    unfolding r by (rule not_opens_other [OF Cons.prems(2)]) simp_all
  with Cons.IH [OF b Cons.prems(2)] show ?case by (simp add: block_count_single)
qed

lemma child_flow_ids_D:
  assumes "child_flow_ids c fid = Inr children"
  shows "distinct children" "\<And>x. x \<in> set children \<Longrightarrow> container_of c x = Some fid"
proof -
  let ?xs = "filter (\<lambda>nid. nid \<in> set (c_vo c) \<and> flow_at (c_heap c) nid \<and> expanded_flow_ids c nid
                      \<and> container_of c nid = Some fid)
          (iter_oids (c_so c) (body_by_flow_id (c_heap c) (c_vo c) fid))"
  from assms have s: "sorted_by (order_index (c_vo c)) ?xs = Inr children"
    by (simp add: child_flow_ids_def)
  have "distinct ?xs" by (simp add: body_by_flow_id_def)
  with sorted_by_InrD(3) [OF s] show "distinct children" by simp
  show "container_of c x = Some fid" if "x \<in> set children" for x
    using that sorted_by_InrD(1) [OF s] by auto
qed

lemma may_open_split:
  assumes "distinct (x # xs)" "\<forall>y\<in>set (x # xs). blocked c S y"
  shows "may_open c S [x] mid + may_open c S xs mid \<le> may_open c S (x # xs) mid"
proof (cases "may_open c S [x] mid = 1 \<and> may_open c S xs mid = 1")
  case True
  then obtain g g' x' where
    a: "mermaid_id (c_vo c) g = Some mid" "below c S x g" and
    b: "x' \<in> set xs" "mermaid_id (c_vo c) g' = Some mid" "below c S x' g'"
    unfolding may_open_def by (auto split: if_splits)
  from mermaid_id_inj [OF a(1) b(2)] have "g' = g" by simp
  with below_apart [OF a(2), of x'] b assms(2) have "x = x'" by auto
  with b(1) assms(1) show ?thesis by simp
next
  case False
  then show ?thesis unfolding may_open_def by (auto split: if_splits)
qed

lemma may_open_block:
  assumes mid: "mermaid_id (c_vo c) fid = Some midf" and out: "fid \<notin> S"
    and ch: "\<And>x. x \<in> set children \<Longrightarrow> container_of c x = Some fid"
  shows "(if mid = midf then 1 else 0) + may_open c (insert fid S) children mid
           \<le> may_open c S [fid] mid"
proof (cases "mid = midf")
  case True
  have "may_open c (insert fid S) children mid = 0"
  proof (rule ccontr)
    assume "may_open c (insert fid S) children mid \<noteq> 0"
    then obtain g x where g: "mermaid_id (c_vo c) g = Some mid" "below c (insert fid S) x g"
      unfolding may_open_def by (auto split: if_splits)
    from mermaid_id_inj [OF g(1)] mid True have "g = fid" by simp
    with below_outside [OF g(2)] show False by simp
  qed
  moreover have "may_open c S [fid] mid = 1"
    unfolding may_open_def using mid True below_self [OF out, of c] by auto
  ultimately show ?thesis by simp
next
  case False
  show ?thesis
  proof (cases "may_open c (insert fid S) children mid = 0")
    case True
    with False show ?thesis by simp
  next
    case nz: False
    then obtain g x where g: "x \<in> set children" "mermaid_id (c_vo c) g = Some mid"
      "below c (insert fid S) x g"
      unfolding may_open_def by (auto split: if_splits)
    from below_child [OF ch [OF g(1)] out g(3)] g(2)
    have "may_open c S [fid] mid = 1" unfolding may_open_def by auto
    with False show ?thesis unfolding may_open_def by (auto split: if_splits)
  qed
qed

lemma render_flow_blocks:
  "render_flow c fid ind st = Inr st' \<Longrightarrow> spaces ind \<Longrightarrow> CHR ''['' \<notin> set mid \<Longrightarrow>
     block_count mid (lines st') \<le> block_count mid (lines st) + may_open c (rendering_stack st) [fid] mid"
  "render_children c xs ind st = Inr st' \<Longrightarrow> spaces ind \<Longrightarrow> CHR ''['' \<notin> set mid \<Longrightarrow>
     distinct xs \<Longrightarrow> \<forall>x\<in>set xs. blocked c (rendering_stack st) x \<Longrightarrow>
     block_count mid (lines st') \<le> block_count mid (lines st) + may_open c (rendering_stack st) xs mid"
proof (induction c fid ind st and c xs ind st arbitrary: st' and st'
       rule: render_flow_render_children.induct)
  case (1 c fid indent st)
  from "1.prems"(1) show ?case
  proof (cases rule: render_flow_Inr_cases)
    case on_stack
    then show ?thesis by simp
  next
    case (block midf l st1 children nodes st2 st3 st4)
    let ?S = "rendering_stack st"
    let ?s0 = "st\<lparr>rendering_stack := insert fid ?S\<rparr>"
    let ?s1 = "st1\<lparr>lines := lines st1 @ [subgraph_line indent midf l]\<rparr>"
    have sp: "spaces (indent @ ''  '')" using "1.prems"(2) by simp
    have l1: "lines st1 = lines st"
      using label_for_lines [of c fid ?s0] block(3) by simp
    have k1: "rendering_stack st1 = insert fid ?S"
      using label_for_stack [of c fid ?s0] block(3) by simp
    have k2: "rendering_stack st2 = insert fid ?S"
      using emit_nodes_stack [OF block(6)] k1 by simp
    from mermaid_id_form [OF block(2)] have nb: "CHR ''['' \<notin> set midf" by blast
    have o: "opens_block mid (subgraph_line indent midf l) \<longleftrightarrow> mid = midf"
      by (rule opens_block_subgraph_line [OF "1.prems"(2,3) nb])
    have b2: "block_count mid (lines st2) = block_count mid (lines st) + (if mid = midf then 1 else 0)"
      using emit_nodes_blocks [OF block(6) sp, of mid] l1 o by (simp add: block_count_single)
    have bl: "\<forall>x\<in>set children. blocked c (rendering_stack st2) x"
      using child_flow_ids_D(2) [OF block(4)] k2 by (simp add: blocked_def)
    have b3: "block_count mid (lines st3)
                \<le> block_count mid (lines st2) + may_open c (insert fid ?S) children mid"
      using "1.IH" [OF block(1) block(2) block(3) [symmetric] block(4,5,6,7) sp "1.prems"(3)
                      child_flow_ids_D(1) [OF block(4)] bl]
      unfolding k2 .
    have b4: "block_count mid (lines st4) = block_count mid (lines st3)"
      using block(8) sp by (rule emit_edges_blocks)
    have e: "\<not> opens_block mid (indent @ ''end'')"
      using not_opens_other [OF "1.prems"(2), of "CHR ''e''" mid "''nd''"] by simp
    have b5: "block_count mid (lines st') = block_count mid (lines st4)"
      unfolding block(9) using e by (simp add: block_count_single)
    from may_open_block [OF block(2) block(1) child_flow_ids_D(2) [OF block(4)], of children mid]
    have "(if mid = midf then 1 else 0) + may_open c (insert fid ?S) children mid
            \<le> may_open c ?S [fid] mid" by simp
    with b2 b3 b4 b5 show ?thesis by linarith
  qed
next
  case (2 c indent st)
  then show ?case by simp
next
  case (3 c x xs indent st)
  from "3.prems"(1) obtain st1 where
    a: "render_flow c x indent st = Inr st1" and b: "render_children c xs indent st1 = Inr st'"
    by (auto split: sum.splits)
  have k: "rendering_stack st1 = rendering_stack st"
    using render_flow_grows(1) [OF a] by (simp add: grows_def)
  have b1: "block_count mid (lines st1)
              \<le> block_count mid (lines st) + may_open c (rendering_stack st) [x] mid"
    using "3.IH"(1) [OF a "3.prems"(2,3)] .
  have b2: "block_count mid (lines st')
              \<le> block_count mid (lines st1) + may_open c (rendering_stack st) xs mid"
    using "3.IH"(2) [OF a b "3.prems"(2,3)] "3.prems"(4,5) k by simp
  from may_open_split [OF "3.prems"(4,5), of mid] b1 b2 show ?case by linarith
qed

section \<open>The blocks of the whole output\<close>

lemma container_of_None_iff:
  "container_of c t = None \<longleftrightarrow>
     (\<forall>f\<in>set (flow_ids (c_heap c) (c_vo c)). t \<notin> set (body_of (c_heap c) f))"
  by (auto simp: container_of_def container_first_claim find_None_iff body_by_flow_id_def)

text \<open>An object reached from the entry flow is reached through successors alone, or lies
  in the body of a flow that was reached.\<close>

lemma reach_split:
  "t \<in> reach h root \<Longrightarrow>
     t \<in> sreach h root
     \<or> (\<exists>f s. f \<in> reach h root \<and> flow_at h f \<and> start_of h f = Some s \<and> t \<in> sreach h s)"
proof -
  let ?V = "{t. t \<in> reach h root \<and> (t \<in> sreach h root
     \<or> (\<exists>f s. f \<in> reach h root \<and> flow_at h f \<and> start_of h f = Some s \<and> t \<in> sreach h s))}"
  have "reach h root \<subseteq> ?V"
  proof (rule reach_least)
    show "root \<in> ?V" by (simp add: reach_root sreach_refl)
  next
    fix x y assume x: "x \<in> ?V" and y: "y \<in> targets h x"
    from x y have yr: "y \<in> reach h root" by (auto intro: reach_step)
    from y consider "flow_at h x" "start_of h x = Some y" | "y \<in> succs h x"
      by (auto simp: targets_def succs_def split: if_splits)
    then show "y \<in> ?V"
    proof cases
      case 1
      with x yr show ?thesis using sreach_refl [of y h] by blast
    next
      case 2
      with x yr show ?thesis by (auto intro: sreach_step)
    qed
  qed
  then show "t \<in> reach h root \<Longrightarrow> ?thesis" by blast
qed

text \<open>When the entry flow lies in the body of a flow, so does every object that was
  discovered: no other flow is rendered at top level.\<close>

lemma all_contained:
  assumes vo: "set (c_vo c) = reach (c_heap c) root"
    and root: "container_of c root \<noteq> None" and t: "t \<in> set (c_vo c)"
  shows "container_of c t \<noteq> None"
proof -
  let ?h = "c_heap c"
  from root obtain f0 where f0: "f0 \<in> set (flow_ids ?h (c_vo c))" "root \<in> set (body_of ?h f0)"
    by (auto simp: container_of_None_iff)
  then obtain s0 where s0: "start_of ?h f0 = Some s0" "root \<in> sreach ?h s0"
    by (cases "start_of ?h f0") (auto simp: set_body_of)
  from t vo have "t \<in> reach ?h root" by simp
  from reach_split [OF this] show ?thesis
  proof (elim disjE exE conjE)
    assume "t \<in> sreach ?h root"
    with s0(2) have "t \<in> sreach ?h s0" by (rule sreach_trans)
    with s0(1) have "t \<in> set (body_of ?h f0)" by (simp add: set_body_of)
    with f0(1) show ?thesis by (auto simp: container_of_None_iff)
  next
    fix f s assume f: "f \<in> reach ?h root" "flow_at ?h f" "start_of ?h f = Some s" "t \<in> sreach ?h s"
    then have "t \<in> set (body_of ?h f)" by (simp add: set_body_of)
    moreover from f(1,2) vo have "f \<in> set (flow_ids ?h (c_vo c))" by (simp add: flow_ids_def)
    ultimately show ?thesis by (auto simp: container_of_None_iff)
  qed
qed

lemma may_open_Nil [simp]: "may_open c S [] mid = 0"
  by (simp add: may_open_def)

lemma may_open_le_1: "may_open c S xs mid \<le> 1"
  by (simp add: may_open_def)

lemma may_open_Cons_le: "may_open c S xs mid \<le> may_open c S (x # xs) mid"
  by (auto simp: may_open_def)

lemma render_top_flows_blocks:
  "render_top_flows c root fids st = Inr st' \<Longrightarrow> rendering_stack st = {} \<Longrightarrow>
   CHR ''['' \<notin> set mid \<Longrightarrow> distinct fids \<Longrightarrow>
     block_count mid (lines st')
       \<le> block_count mid (lines st)
          + may_open c {} (filter (\<lambda>t. t \<noteq> root \<and> container_of c t = None) fids) mid"
proof (induction fids arbitrary: st)
  case Nil
  then show ?case by simp
next
  case (Cons fid rest)
  let ?P = "\<lambda>t. t \<noteq> root \<and> container_of c t = None"
  show ?case
  proof (cases "fid \<noteq> root \<and> expanded_flow_ids c fid \<and> container_of c fid = None
                 \<and> fid \<notin> rendered_flows st")
    case True
    with Cons.prems(1) obtain st1 where
      a: "render_flow c fid ''  '' st = Inr st1" and
      b: "render_top_flows c root rest st1 = Inr st'"
      by (auto split: sum.splits)
    have k: "rendering_stack st1 = {}"
      using render_flow_grows(1) [OF a] Cons.prems(2) by (simp add: grows_def)
    have b1: "block_count mid (lines st1) \<le> block_count mid (lines st) + may_open c {} [fid] mid"
      using render_flow_blocks(1) [OF a _ Cons.prems(3)] Cons.prems(2) by simp
    have b2: "block_count mid (lines st')
                \<le> block_count mid (lines st1) + may_open c {} (filter ?P rest) mid"
      using Cons.IH [OF b k Cons.prems(3)] Cons.prems(4) by simp
    have "distinct (fid # filter ?P rest)" using Cons.prems(4) by simp
    moreover have "\<forall>y\<in>set (fid # filter ?P rest). blocked c {} y"
      using True by (simp add: blocked_def)
    ultimately have "may_open c {} [fid] mid + may_open c {} (filter ?P rest) mid
                       \<le> may_open c {} (fid # filter ?P rest) mid"
      by (rule may_open_split)
    moreover have "filter ?P (fid # rest) = fid # filter ?P rest" using True by simp
    ultimately show ?thesis using b1 b2 by simp
  next
    case False
    with Cons.prems(1) have b: "render_top_flows c root rest st = Inr st'"
      by (simp split: if_splits)
    have b2: "block_count mid (lines st')
                \<le> block_count mid (lines st) + may_open c {} (filter ?P rest) mid"
      using Cons.IH [OF b Cons.prems(2,3)] Cons.prems(4) by simp
    have "may_open c {} (filter ?P rest) mid \<le> may_open c {} (filter ?P (fid # rest)) mid"
      using may_open_Cons_le [of c "{}" "filter ?P rest" mid fid] by simp
    with b2 show ?thesis by linarith
  qed
qed

lemma highlight_loop_lines:
  "highlight_loop c fids hl st = Inr (hl', st') \<Longrightarrow> lines st' = lines st"
  by (induction c fids hl st rule: highlight_loop.induct) (auto split: if_splits option.splits)

lemma emit_classes_blocks:
  "emit_classes c rids st = Inr st' \<Longrightarrow> block_count mid (lines st') = block_count mid (lines st)"
proof (induction rids arbitrary: st)
  case Nil
  then show ?case by simp
next
  case (Cons rid rest)
  from Cons.prems obtain m where
    b: "emit_classes c rest (st\<lparr>lines := lines st @ [''  class '' @ m @ '' pf_true_start'']\<rparr>) = Inr st'"
    by (auto split: option.splits)
  have "\<not> opens_block mid (''  class '' @ m @ '' pf_true_start'')"
    using not_opens_other [of "''  ''" "CHR ''c''" mid "''lass '' @ m @ '' pf_true_start''"] by simp
  with Cons.IH [OF b] show ?case by (simp add: block_count_single)
qed

lemma highlight_blocks:
  "highlight c st = Inr st' \<Longrightarrow> block_count mid (lines st') = block_count mid (lines st)"
proof -
  assume h: "highlight c st = Inr st'"
  then obtain hl st1 where
    a: "highlight_loop c (flow_ids (c_heap c) (c_vo c)) [] st = Inr (hl, st1)"
    by (auto simp: highlight_def split: sum.splits)
  note l = highlight_loop_lines [OF a]
  show ?thesis
  proof (cases "hl = []")
    case True
    with h a l show ?thesis by (simp add: highlight_def)
  next
    case False
    with h a obtain rids where
      e: "emit_classes c rids
            (st1\<lparr>lines := lines st1 @
               [''  classDef pf_true_start stroke:#d33,stroke-width:3px,fill:#fff5f5;'']\<rparr>) = Inr st'"
      by (auto simp: highlight_def split: sum.splits)
    have "\<not> opens_block mid ''  classDef pf_true_start stroke:#d33,stroke-width:3px,fill:#fff5f5;''"
      using not_opens_other [of "''  ''" "CHR ''c''" mid
              "''lassDef pf_true_start stroke:#d33,stroke-width:3px,fill:#fff5f5;''"] by simp
    with emit_classes_blocks [OF e, of mid] l show ?thesis by (simp add: block_count_single)
  qed
qed

lemma header_blocks: "block_count mid (header_lines dir_u m) = 0"
proof -
  have a: "\<not> opens_block mid (fence @ ''mermaid'')"
    using not_opens_other [of "[]" "CHR 0x60" mid "[CHR 0x60, CHR 0x60] @ ''mermaid''"]
    by (simp add: fence_def)
  have b: "\<not> opens_block mid (''flowchart '' @ dir_u)"
    using not_opens_other [of "[]" "CHR ''f''" mid "''lowchart '' @ dir_u"] by simp
  have c: "\<not> opens_block mid (''  start((Start)) --> '' @ m)"
    by (simp add: opens_block_def)
  from a b c show ?thesis by (simp add: header_lines_def block_count_def)
qed

lemma render_blocks:
  assumes r: "render c root dir_u hl ws = Inr st"
    and vo: "set (c_vo c) = reach (c_heap c) root" "distinct (c_vo c)"
    and mid: "CHR ''['' \<notin> set mid"
  shows "block_count mid (lines st) \<le> 1"
proof -
  let ?fids = "flow_ids (c_heap c) (c_vo c)"
  let ?P = "\<lambda>t. t \<noteq> root \<and> container_of c t = None"
  from r obtain m where m: "mermaid_id (c_vo c)
             (if is_expanded_flow (c_heap c) root
              then (case real_start (c_heap c) root of Some rs \<Rightarrow> rs | None \<Rightarrow> root)
              else root) = Some m"
    unfolding render_def by (auto split: option.splits)
  define st0 where "st0 = rstate0 ws (header_lines dir_u m)"
  from r obtain st1 where s1:
    "(if expanded_flow_ids c root then render_flow c root ''  '' st0 else Inr st0) = Inr st1"
    unfolding render_def m st0_def option.case by (auto split: sum.splits)
  from r obtain st2 where s2: "render_top_flows c root ?fids st1 = Inr st2"
    unfolding render_def m option.case s1 [unfolded st0_def] sum.case by (auto split: sum.splits)
  from r obtain st3 where s3: "emit_nodes c ''  '' (top_nodes c) st2 = Inr st3"
    unfolding render_def m option.case s1 [unfolded st0_def] sum.case s2
    by (auto split: sum.splits)
  from r obtain st4 where s4: "emit_edges c ''  '' (bucket c None) st3 = Inr st4"
    unfolding render_def m option.case s1 [unfolded st0_def] sum.case s2 s3
    by (auto split: sum.splits)
  from r obtain st5 where s5: "(if hl then highlight c st4 else Inr st4) = Inr st5"
    and res: "st = st5\<lparr>lines := lines st5 @ [fence]\<rparr>"
    unfolding render_def m option.case s1 [unfolded st0_def] sum.case s2 s3 s4
    by (auto split: sum.splits)
  have k0: "rendering_stack st0 = {}" "lines st0 = header_lines dir_u m"
    by (simp_all add: st0_def rstate0_def)
  have b1: "block_count mid (lines st1)
              \<le> (if expanded_flow_ids c root then may_open c {} [root] mid else 0)"
  proof (cases "expanded_flow_ids c root")
    case True
    with s1 have "render_flow c root ''  '' st0 = Inr st1" by simp
    from render_flow_blocks(1) [OF this _ mid] k0 True show ?thesis
      by (simp add: header_blocks)
  next
    case False
    with s1 k0 show ?thesis by (simp add: header_blocks)
  qed
  have k1: "rendering_stack st1 = {}"
  proof (cases "expanded_flow_ids c root")
    case True
    with s1 have "render_flow c root ''  '' st0 = Inr st1" by simp
    from render_flow_grows(1) [OF this] k0 show ?thesis by (simp add: grows_def)
  next
    case False
    with s1 k0 show ?thesis by simp
  qed
  have d: "distinct ?fids" using vo(2) by (simp add: flow_ids_def)
  have b2: "block_count mid (lines st2)
              \<le> block_count mid (lines st1) + may_open c {} (filter ?P ?fids) mid"
    using s2 k1 mid d by (rule render_top_flows_blocks)
  have b3: "block_count mid (lines st3) = block_count mid (lines st2)"
    using s3 by (rule emit_nodes_blocks) simp
  have b4: "block_count mid (lines st4) = block_count mid (lines st3)"
    using s4 by (rule emit_edges_blocks) simp
  have b5: "block_count mid (lines st5) = block_count mid (lines st4)"
    using s5 highlight_blocks [of c st4 st5 mid] by (cases hl) simp_all
  have f: "\<not> opens_block mid fence"
    using not_opens_other [of "[]" "CHR 0x60" mid "[CHR 0x60, CHR 0x60]"] by (simp add: fence_def)
  have b6: "block_count mid (lines st) = block_count mid (lines st5)"
    unfolding res using f by (simp add: block_count_single)
  have top: "may_open c {} [root] mid + may_open c {} (filter ?P ?fids) mid \<le> 1"
  proof (cases "container_of c root")
    case None
    have "distinct (root # filter ?P ?fids)" using d by simp
    moreover have "\<forall>y\<in>set (root # filter ?P ?fids). blocked c {} y"
      using None by (simp add: blocked_def)
    ultimately have "may_open c {} [root] mid + may_open c {} (filter ?P ?fids) mid
                       \<le> may_open c {} (root # filter ?P ?fids) mid"
      by (rule may_open_split)
    with may_open_le_1 [of c "{}" "root # filter ?P ?fids" mid] show ?thesis by linarith
  next
    case (Some p)
    then have "container_of c t \<noteq> None" if "t \<in> set ?fids" for t
      using all_contained [OF vo(1), of t] that by (simp add: flow_ids_def)
    then have "filter ?P ?fids = []" by (auto simp: filter_empty_conv)
    with may_open_le_1 [of c "{}" "[root]" mid] show ?thesis by simp
  qed
  have "(if expanded_flow_ids c root then may_open c {} [root] mid else 0)
          \<le> may_open c {} [root] mid" by simp
  with b1 b2 b3 b4 b5 b6 top show ?thesis by linarith
qed

lemma visualize_lines_blocks:
  assumes "visualize_lines so h root ns opts = Inr (ls, ws)" and "CHR ''['' \<notin> set mid"
  shows "block_count mid ls \<le> 1"
proof -
  from assms(1) obtain dir_u where du: "direction_u (direction opts) = Inr dir_u"
    unfolding visualize_lines_def by (auto split: sum.splits)
  from assms(1) obtain n where n: "max_nodes opts = PInt n"
    unfolding visualize_lines_def du sum.case by (auto split: if_splits pyval.splits)
  from assms(1) obtain vo es where disc: "discover h n root = Inr (vo, es)"
    unfolding visualize_lines_def du sum.case n pyval.case
    by (auto split: if_splits sum.splits)
  from assms(1) obtain bs where bs: "edges_by_container so h vo (render_edges so h vo es) = Inr bs"
    unfolding visualize_lines_def du sum.case n pyval.case disc prod.case
    by (auto split: if_splits sum.splits)
  define c where "c = \<lparr>c_so = so, c_heap = h, c_vo = vo, c_names = names_by_obj_id h ns,
                       c_show_default = show_default opts, c_buckets = bs\<rparr>"
  from assms(1) obtain st where
    st: "render c root dir_u (highlight_starts opts) (if ns = [] then [MissingNamespace] else []) = Inr st"
    and ls: "ls = lines st"
    unfolding visualize_lines_def du sum.case n pyval.case disc prod.case bs c_def
    by (auto split: if_splits sum.splits)
  have "set (c_vo c) = reach (c_heap c) root" "distinct (c_vo c)"
    using discover_Inr(1,2) [OF disc] by (simp_all add: c_def)
  from render_blocks [OF st this assms(2)] ls show ?thesis by simp
qed

lemma mermaid_id_blocks:
  assumes "visualize_lines so h root ns opts = Inr (ls, ws)" and "mermaid_id vo fid = Some mid"
  shows "block_count mid ls \<le> 1"
  using visualize_lines_blocks [OF assms(1)] mermaid_id_form [OF assms(2)] by blast

section \<open>The claims\<close>

text \<open>C1, as stated, fails: the parent pointers of the two flows of \<^const>\<open>mutual_flows\<close>
  point at each other, so following them from flow 0 comes back to flow 0.\<close>

theorem C1_parent_cycle_counterexample:
  "discover mutual_flows 1000 0 = Inr ([0, 1, 2, 3], [(1, ''default'', 2), (3, ''default'', 0)])
   \<and> parent_flow_by_flow_id insertion_order mutual_flows [0, 1, 2, 3] 0 = Some 2
   \<and> parent_flow_by_flow_id insertion_order mutual_flows [0, 1, 2, 3] 2 = Some 0"
  by code_simp

text \<open>C1, amended: the containment mapping gives every identity the first flow, in
  visitation order, whose body holds it (and none when no body holds it), whatever the
  order in which the bodies are iterated; and no flow is recorded as its own parent.
  Parent pointers may still form a cycle through two or more flows.\<close>

theorem C1_first_claim_no_self_parent:
  "container_flow_by_node_id so h vo nid =
     List.find (\<lambda>fid. nid \<in> set (body_by_flow_id h vo fid)) (flow_ids h vo)
   \<and> parent_flow_by_flow_id so h vo fid \<noteq> Some fid"
  by (simp add: container_first_claim parent_flow_by_flow_id_def split: option.splits)

theorem C1_first_claim_no_self_parent_witness:
  "container_flow_by_node_id insertion_order mutual_flows [0, 1, 2, 3] 2 = Some 0
   \<and> List.find (\<lambda>fid. 2 \<in> set (body_by_flow_id mutual_flows [0, 1, 2, 3] fid))
        (flow_ids mutual_flows [0, 1, 2, 3]) = Some 0
   \<and> parent_flow_by_flow_id insertion_order mutual_flows [0, 1, 2, 3] 2 \<noteq> Some 2"
proof -
  have "List.find (\<lambda>fid. 2 \<in> set (body_by_flow_id mutual_flows [0, 1, 2, 3] fid))
        (flow_ids mutual_flows [0, 1, 2, 3]) = Some 0"
    by code_simp
  then show ?thesis
    using C1_first_claim_no_self_parent [of insertion_order mutual_flows "[0, 1, 2, 3]" 2 2]
    by simp
qed

text \<open>C3: the real start of a flow is the object reached from its start node by following
  start nodes through objects that delegate (Flows with a start node), the first object
  that does not delegate; when an identity repeats along the chain there is no real start,
  and the function returns None (it is total: it neither loops nor raises). A flow that
  starts at a flow that starts at a plain node has that node as real start; two flows that
  start at each other have none. In the whole call such flows abort nothing: with
  highlighting enabled the call returns, and its warnings hold one "no resolvable start"
  for every discovered flow without a real start, whose turn in the highlight loop adds a
  warning and no highlighted identity.\<close>

theorem C3_real_start:
  "(real_start h f = Some n \<longleftrightarrow>
      (\<exists>x k. start_of h f = Some x \<and> follow h k x = Some n \<and> \<not> delegates h n))
   \<and> (start_of h f = Some x \<and> follow h j x = Some y \<and> follow h k x = Some y \<and> j < k \<longrightarrow>
        real_start h f = None)
   \<and> (flow_at h f1 \<and> start_of h f1 = Some f2 \<and> flow_at h f2 \<and> start_of h f2 = Some f1 \<longrightarrow>
        real_start h f1 = None \<and> real_start h f2 = None)
   \<and> (start_of h f1 = Some f2 \<and> flow_at h f2 \<and> start_of h f2 = Some p \<and> \<not> flow_at h p \<longrightarrow>
        real_start h f1 = Some p)
   \<and> (fid \<in> set (c_vo c) \<and> real_start (c_heap c) fid = None \<longrightarrow>
        highlight_loop c [fid] hl st = Inr (hl, st\<lparr>warnings := warnings st @ [NoResolvableStart]\<rparr>))
   \<and> (direction_u (direction opts) = Inr d \<and> d \<in> {''LR'', ''RL'', ''TB'', ''TD'', ''BT''}
        \<and> max_nodes opts = PInt m \<and> 0 < m \<and> int (card (reach h root)) \<le> m
        \<and> highlight_starts opts \<longrightarrow>
        (\<exists>out ws vo es. visualize so h root ns opts = Inr (out, ws)
           \<and> discover h m root = Inr (vo, es)
           \<and> count_list ws NoResolvableStart
               = length (filter (\<lambda>fid. real_start h fid = None) (flow_ids h vo))))"
proof (intro conjI impI)
  show "real_start h f = Some n \<longleftrightarrow>
      (\<exists>x k. start_of h f = Some x \<and> follow h k x = Some n \<and> \<not> delegates h n)"
    by (rule real_start_Some_iff)
next
  assume "start_of h f = Some x \<and> follow h j x = Some y \<and> follow h k x = Some y \<and> j < k"
  then show "real_start h f = None" using real_start_repeat [of h f x j y k] by blast
next
  assume a: "flow_at h f1 \<and> start_of h f1 = Some f2 \<and> flow_at h f2 \<and> start_of h f2 = Some f1"
  then have d: "delegates h f1" "delegates h f2" by (simp_all add: delegates_def)
  with a have "follow h 0 f2 = Some f2" "follow h 2 f2 = Some f2"
    "follow h 0 f1 = Some f1" "follow h 2 f1 = Some f1"
    by (simp_all add: numeral_2_eq_2)
  with a real_start_repeat [of h f1 f2 0 f2 2] real_start_repeat [of h f2 f1 0 f1 2]
  show "real_start h f1 = None" "real_start h f2 = None" by simp_all
next
  assume a: "start_of h f1 = Some f2 \<and> flow_at h f2 \<and> start_of h f2 = Some p \<and> \<not> flow_at h p"
  then have "follow h 1 f2 = Some p" "\<not> delegates h p" by (simp_all add: delegates_def)
  with a show "real_start h f1 = Some p" unfolding real_start_Some_iff by blast
next
  assume "fid \<in> set (c_vo c) \<and> real_start (c_heap c) fid = None"
  then show "highlight_loop c [fid] hl st
     = Inr (hl, st\<lparr>warnings := warnings st @ [NoResolvableStart]\<rparr>)"
    by simp
next
  assume a: "direction_u (direction opts) = Inr d \<and> d \<in> {''LR'', ''RL'', ''TB'', ''TD'', ''BT''}
        \<and> max_nodes opts = PInt m \<and> 0 < m \<and> int (card (reach h root)) \<le> m
        \<and> highlight_starts opts"
  then have d: "direction_u (direction opts) = Inr d" "d \<in> {''LR'', ''RL'', ''TB'', ''TD'', ''BT''}"
    and n: "max_nodes opts = PInt m" "0 < m" "int (card (reach h root)) \<le> m"
    and hl: "highlight_starts opts" by simp_all
  from visualize_lines_Inr [OF d n, of so ns] hl obtain vo es L W where
    disc: "discover h m root = Inr (vo, es)" and W: "NoResolvableStart \<notin> set W" and
    v: "visualize_lines so h root ns opts =
          Inr ([fence @ ''mermaid'', ''flowchart '' @ d] @ L,
               (if ns = [] then [MissingNamespace] else []) @ W @
               replicate (length (filter (\<lambda>fid. real_start h fid = None) (flow_ids h vo)))
                 NoResolvableStart)"
    by auto
  have "count_list ((if ns = [] then [MissingNamespace] else []) @ W @
               replicate (length (filter (\<lambda>fid. real_start h fid = None) (flow_ids h vo)))
                 NoResolvableStart) NoResolvableStart
        = length (filter (\<lambda>fid. real_start h fid = None) (flow_ids h vo))"
    by (rule count_list_replicate_other) (use W in auto)
  with disc visualize_def_Inr [OF v]
  show "\<exists>out ws vo es. visualize so h root ns opts = Inr (out, ws)
           \<and> discover h m root = Inr (vo, es)
           \<and> count_list ws NoResolvableStart
               = length (filter (\<lambda>fid. real_start h fid = None) (flow_ids h vo))"
    by blast
qed

theorem C3_real_start_witness:
  "flow_at delegation_cycle 0 \<and> start_of delegation_cycle 0 = Some 1
   \<and> flow_at delegation_cycle 1 \<and> start_of delegation_cycle 1 = Some 0
   \<and> real_start delegation_cycle 0 = None \<and> real_start delegation_cycle 1 = None
   \<and> start_of nested_flows 0 = Some 1 \<and> flow_at nested_flows 1
   \<and> start_of nested_flows 1 = Some 2 \<and> \<not> flow_at nested_flows 2
   \<and> real_start nested_flows 0 = Some 2
   \<and> direction_u (direction (options_with (PStr ''LR'') (PInt 1000))) = Inr ''LR''
   \<and> card (reach delegation_cycle 0) = 3
   \<and> highlight_starts (options_with (PStr ''LR'') (PInt 1000))
   \<and> visualize_lines insertion_order delegation_cycle 0 [] (options_with (PStr ''LR'') (PInt 1000))
       = Inr ([fence @ ''mermaid'', ''flowchart LR'', ''  start((Start)) --> n0'', fence],
              [MissingNamespace, NoResolvableStart, NoResolvableStart, NoResolvableStart])
   \<and> length (filter (\<lambda>fid. real_start delegation_cycle fid = None)
               (flow_ids delegation_cycle [0, 1, 2])) = 3"
proof -
  have a: "flow_at delegation_cycle 0 \<and> start_of delegation_cycle 0 = Some 1
   \<and> flow_at delegation_cycle 1 \<and> start_of delegation_cycle 1 = Some 0"
    by code_simp
  have b: "start_of nested_flows 0 = Some 1 \<and> flow_at nested_flows 1
   \<and> start_of nested_flows 1 = Some 2 \<and> \<not> flow_at nested_flows 2"
    by code_simp
  have o: "direction_u (direction (options_with (PStr ''LR'') (PInt 1000))) = Inr ''LR''"
    "highlight_starts (options_with (PStr ''LR'') (PInt 1000))"
    by (simp_all add: options_with_def direction_u_LR)
  have disc: "discover delegation_cycle 1000 0 = Inr ([0, 1, 2], [(1, ''default'', 2)])"
    by code_simp
  from discover_card [OF disc] have c: "card (reach delegation_cycle 0) = 3" by simp
  have v: "visualize_lines insertion_order delegation_cycle 0 [] (options_with (PStr ''LR'') (PInt 1000))
       = Inr ([fence @ ''mermaid'', ''flowchart LR'', ''  start((Start)) --> n0'', fence],
              [MissingNamespace, NoResolvableStart, NoResolvableStart, NoResolvableStart])"
    by code_simp
  have k: "length (filter (\<lambda>fid. real_start delegation_cycle fid = None)
               (flow_ids delegation_cycle [0, 1, 2])) = 3"
    by code_simp
  from C3_real_start [where h = delegation_cycle and ?f1.0 = 0 and ?f2.0 = 1] a
  have r1: "real_start delegation_cycle 0 = None \<and> real_start delegation_cycle 1 = None"
    by simp
  from C3_real_start [where h = nested_flows and ?f1.0 = 0 and ?f2.0 = 1 and p = 2] b
  have r2: "real_start nested_flows 0 = Some 2"
    by simp
  from a b o c v k r1 r2 show ?thesis by simp
qed



text \<open>C5: a call of \<^verbatim>\<open>_render_flow\<close> for a flow that is on the rendering stack returns at
  once and leaves the state, and so the lines, as they are. Every call of \<^verbatim>\<open>_render_flow\<close>
  returns, for every containment mapping and in every state: its call tree is
  well-founded. In the output of the whole call, for every discovered object at most one
  line opens a block \<^verbatim>\<open>subgraph subflow_<id>[\<close> with the identifier of the object, and two
  objects never share an identifier: no flow is rendered twice.\<close>

theorem C5_render_flow_once:
  "(fid \<in> rendering_stack st \<longrightarrow> render_flow c fid indent st = Inr st)
   \<and> render_flow_render_children_dom (Inl (c, fid, indent, st))
   \<and> (visualize_lines so h root ns opts = Inr (ls, ws) \<and> max_nodes opts = PInt n
        \<and> discover h n root = Inr (vo, es) \<and> mermaid_id vo x = Some mid
        \<longrightarrow> block_count mid ls \<le> 1)
   \<and> (mermaid_id vo a = Some mid \<and> mermaid_id vo b = Some mid \<longrightarrow> a = b)"
proof (intro conjI impI)
  show "render_flow c fid indent st = Inr st" if "fid \<in> rendering_stack st"
    using that by (rule render_flow_on_stack)
  show "render_flow_render_children_dom (Inl (c, fid, indent, st))"
    using render_flow_terminates by blast
  show "block_count mid ls \<le> 1"
    if "visualize_lines so h root ns opts = Inr (ls, ws) \<and> max_nodes opts = PInt n
        \<and> discover h n root = Inr (vo, es) \<and> mermaid_id vo x = Some mid"
    using that mermaid_id_blocks [of so h root ns opts ls ws vo x mid] by blast
  show "a = b" if "mermaid_id vo a = Some mid \<and> mermaid_id vo b = Some mid"
    using that mermaid_id_inj [of vo a mid b] by blast
qed

theorem C5_render_flow_once_witness:
  "(2::nat) \<in> rendering_stack ((rstate0 [] [])\<lparr>rendering_stack := {2}\<rparr>)
   \<and> render_flow
        \<lparr>c_so = insertion_order, c_heap = mutual_flows, c_vo = [0, 1, 2, 3], c_names = Map.empty,
         c_show_default = False, c_buckets = []\<rparr> 2 ''  ''
        ((rstate0 [] [])\<lparr>rendering_stack := {2}\<rparr>)
       = Inr ((rstate0 [] [])\<lparr>rendering_stack := {2}\<rparr>)
   \<and> render_flow_render_children_dom
        (Inl (\<lparr>c_so = insertion_order, c_heap = mutual_flows, c_vo = [0, 1, 2, 3],
               c_names = Map.empty, c_show_default = False, c_buckets = []\<rparr>, 2, ''  '',
              (rstate0 [] [])\<lparr>rendering_stack := {2}\<rparr>))
   \<and> visualize_lines insertion_order mutual_flows 0 [] (options_with (PStr ''LR'') (PInt 1000))
       = Inr ([fence @ ''mermaid'', ''flowchart LR'', ''  start((Start)) --> n1'',
               ''  subgraph subflow_n0[Flow]'',
               ''    n1['' @ [dquote] @ ''Node'' @ [dquote] @ '']'',
               ''    subgraph subflow_n2[Flow#2]'',
               ''      n3['' @ [dquote] @ ''Node#2'' @ [dquote] @ '']'',
               ''      n3 --> n1'', ''    end'', ''    n1 --> n3'', ''  end'',
               ''  classDef pf_true_start stroke:#d33,stroke-width:3px,fill:#fff5f5;'',
               ''  class n1 pf_true_start'', ''  class n3 pf_true_start'', fence],
              [MissingNamespace, MissingName ''Flow'', MissingName ''Node'',
               MissingName ''Flow'', MissingName ''Node''])
   \<and> max_nodes (options_with (PStr ''LR'') (PInt 1000)) = PInt 1000
   \<and> discover mutual_flows 1000 0
       = Inr ([0, 1, 2, 3], [(1, ''default'', 2), (3, ''default'', 0)])
   \<and> mermaid_id [0, 1, 2, 3] 2 = Some ''n2''
   \<and> container_flow_by_node_id insertion_order mutual_flows [0, 1, 2, 3] 0 = Some 2
   \<and> container_flow_by_node_id insertion_order mutual_flows [0, 1, 2, 3] 2 = Some 0
   \<and> block_count ''n2''
        (fst (projr (visualize_lines insertion_order mutual_flows 0 []
                       (options_with (PStr ''LR'') (PInt 1000))))) \<le> 1
   \<and> block_count ''n2''
        (fst (projr (visualize_lines insertion_order mutual_flows 0 []
                       (options_with (PStr ''LR'') (PInt 1000))))) = 1
   \<and> block_count ''n0''
        (fst (projr (visualize_lines insertion_order mutual_flows 0 []
                       (options_with (PStr ''LR'') (PInt 1000))))) = 1"
proof -
  let ?c = "\<lparr>c_so = insertion_order, c_heap = mutual_flows, c_vo = [0, 1, 2, 3],
             c_names = Map.empty, c_show_default = False, c_buckets = []\<rparr>"
  let ?st = "(rstate0 [] [])\<lparr>rendering_stack := {2::nat}\<rparr>"
  let ?ls = "[fence @ ''mermaid'', ''flowchart LR'', ''  start((Start)) --> n1'',
               ''  subgraph subflow_n0[Flow]'',
               ''    n1['' @ [dquote] @ ''Node'' @ [dquote] @ '']'',
               ''    subgraph subflow_n2[Flow#2]'',
               ''      n3['' @ [dquote] @ ''Node#2'' @ [dquote] @ '']'',
               ''      n3 --> n1'', ''    end'', ''    n1 --> n3'', ''  end'',
               ''  classDef pf_true_start stroke:#d33,stroke-width:3px,fill:#fff5f5;'',
               ''  class n1 pf_true_start'', ''  class n3 pf_true_start'', fence]"
  let ?ws = "[MissingNamespace, MissingName ''Flow'', MissingName ''Node'',
               MissingName ''Flow'', MissingName ''Node'']"
  have s: "(2::nat) \<in> rendering_stack ?st" by simp
  have v: "visualize_lines insertion_order mutual_flows 0 [] (options_with (PStr ''LR'') (PInt 1000))
             = Inr (?ls, ?ws)"
    by code_simp
  have m: "max_nodes (options_with (PStr ''LR'') (PInt 1000)) = PInt 1000"
    by (simp add: options_with_def)
  have d: "discover mutual_flows 1000 0
             = Inr ([0, 1, 2, 3], [(1, ''default'', 2), (3, ''default'', 0)])"
    by code_simp
  have i: "mermaid_id [0, 1, 2, 3] 2 = Some ''n2''" by code_simp
  have k: "container_flow_by_node_id insertion_order mutual_flows [0, 1, 2, 3] 0 = Some 2
     \<and> container_flow_by_node_id insertion_order mutual_flows [0, 1, 2, 3] 2 = Some 0"
    by code_simp
  have c1: "block_count ''n2'' ?ls = 1" by code_simp
  have c0: "block_count ''n0'' ?ls = 1" by code_simp
  note t = C5_render_flow_once [of 2 ?st ?c "''  ''" insertion_order mutual_flows 0 "[]"
             "options_with (PStr ''LR'') (PInt 1000)" ?ls ?ws 1000 "[0, 1, 2, 3]"
             "[(1, ''default'', 2), (3, ''default'', 0)]" 2 "''n2''" 2 2]
  from t s have r: "render_flow ?c 2 ''  '' ?st = Inr ?st" by blast
  from t have dm: "render_flow_render_children_dom (Inl (?c, 2, ''  '', ?st))" by blast
  from t v m d i have le: "block_count ''n2'' ?ls \<le> 1" by blast
  from s r dm v m d i k le c1 c0 show ?thesis by (simp only: v sum.sel fst_conv) 
qed

text \<open>C4: after a successful discovery, the rewritten edges are a set without repetitions:
  the union, over the discovered edges (src, action, tgt) in the order the loop visits
  them, of the edges (s, action, entry(tgt)) for the members s of the exit source set that
  \<^verbatim>\<open>_exit_source_oids\<close> returns for src at that moment. No discovered edge is skipped, the
  exit source set is never empty and is src alone when src is no expanded flow, and the
  entry of an object is the object itself unless it is an expanded flow, whose entry is its
  real start.\<close>

theorem C4_rewritten_edges:
  assumes "discover h m root = Inr (vo, es)"
  shows "distinct (render_edges so h vo es)
    \<and> (\<exists>tr. map fst tr = iter_edges so es
          \<and> set (iter_edges so es) = set es
          \<and> tr = exit_trace so h vo (iter_edges so es) exit_state0
          \<and> (\<forall>(e, xs)\<in>set tr. xs \<noteq> [] \<and> (\<not> is_expanded_flow h (fst e) \<longrightarrow> xs = [fst e]))
          \<and> set (render_edges so h vo es) =
               (\<Union>(e, xs)\<in>set tr. {(s, fst (snd e), entry_oid h (snd (snd e))) | s. s \<in> set xs}))
    \<and> (\<forall>t. (\<not> is_expanded_flow h t \<longrightarrow> entry_oid h t = t)
           \<and> (is_expanded_flow h t \<longrightarrow> real_start h t = Some (entry_oid h t)))"
proof (intro conjI allI)
  note cl = discover_closed [OF assms]
  show "distinct (render_edges so h vo es)"
    by (simp add: render_edges_def rewrite_loop_distinct)
  have all: "filter (\<lambda>(s, a, t). s \<in> set vo \<and> t \<in> set vo) (iter_edges so es) = iter_edges so es"
    using cl(3) by (auto simp: filter_id_conv)
  show "\<exists>tr. map fst tr = iter_edges so es
          \<and> set (iter_edges so es) = set es
          \<and> tr = exit_trace so h vo (iter_edges so es) exit_state0
          \<and> (\<forall>(e, xs)\<in>set tr. xs \<noteq> [] \<and> (\<not> is_expanded_flow h (fst e) \<longrightarrow> xs = [fst e]))
          \<and> set (render_edges so h vo es) =
               (\<Union>(e, xs)\<in>set tr. {(s, fst (snd e), entry_oid h (snd (snd e))) | s. s \<in> set xs})"
  proof (intro exI [of _ "exit_trace so h vo (iter_edges so es) exit_state0"] conjI)
    show "map fst (exit_trace so h vo (iter_edges so es) exit_state0) = iter_edges so es"
      unfolding exit_trace_edges all ..
    show "set (iter_edges so es) = set es" by simp
    show "\<forall>(e, xs)\<in>set (exit_trace so h vo (iter_edges so es) exit_state0).
            xs \<noteq> [] \<and> (\<not> is_expanded_flow h (fst e) \<longrightarrow> xs = [fst e])"
      using exit_trace_within [OF cl(1) cache_within_init, of _ _ so "iter_edges so es"] by blast
    show "set (render_edges so h vo es) =
            (\<Union>(e, xs)\<in>set (exit_trace so h vo (iter_edges so es) exit_state0).
               {(s, fst (snd e), entry_oid h (snd (snd e))) | s. s \<in> set xs})"
      by (simp add: render_edges_def rewrite_loop_set)
  qed simp
  show "\<not> is_expanded_flow h t \<longrightarrow> entry_oid h t = t" for t
    using entry_oid_cases [of h t] by simp
  show "is_expanded_flow h t \<longrightarrow> real_start h t = Some (entry_oid h t)" for t
    using entry_oid_cases [of h t] by simp
qed

theorem C4_rewritten_edges_witness:
  "discover nested_flows 1000 0 = Inr ([0, 1, 2, 3], [(1, ''default'', 3)])
   \<and> distinct (render_edges insertion_order nested_flows [0, 1, 2, 3] [(1, ''default'', 3)])
   \<and> render_edges insertion_order nested_flows [0, 1, 2, 3] [(1, ''default'', 3)]
       = [(2, ''default'', 3)]
   \<and> exit_trace insertion_order nested_flows [0, 1, 2, 3]
        (iter_edges insertion_order [(1, ''default'', 3)]) exit_state0
       = [((1, ''default'', 3), [2])]
   \<and> is_expanded_flow nested_flows 1 \<and> \<not> is_expanded_flow nested_flows 3
   \<and> entry_oid nested_flows 3 = 3"
proof -
  have d: "discover nested_flows 1000 0 = Inr ([0, 1, 2, 3], [(1, ''default'', 3)])"
    by code_simp
  have r: "render_edges insertion_order nested_flows [0, 1, 2, 3] [(1, ''default'', 3)]
       = [(2, ''default'', 3)]"
    by code_simp
  have t: "exit_trace insertion_order nested_flows [0, 1, 2, 3]
        (iter_edges insertion_order [(1, ''default'', 3)]) exit_state0
       = [((1, ''default'', 3), [2])]"
    by code_simp
  have e: "is_expanded_flow nested_flows 1 \<and> \<not> is_expanded_flow nested_flows 3"
    by code_simp
  from C4_rewritten_edges [OF d, of insertion_order] d r t e
  show ?thesis by auto
qed

text \<open>C6, as stated, fails: a call with a node budget of 1000 on a graph of four objects
  fails all the same when the direction is not one of the five.\<close>

theorem C6_other_fatal_cause_counterexample:
  "discover nested_flows 1000 0 = Inr ([0, 1, 2, 3], [(1, ''default'', 3)])
   \<and> visualize insertion_order nested_flows 0 [] (options_with (PStr ''XX'') (PInt 1000))
       = Inl (ValueError ''direction must be one of LR/RL/TB/TD/BT'')"
  by code_simp

text \<open>C6, amended: when the direction is one that the call accepts, the call fails exactly
  when the node budget is no integer, is not positive, or is smaller than the number of
  objects reachable from the entry flow. A budget that is no positive integer is a
  ValueError whatever the graph (it is raised before the traversal); a positive budget
  smaller than the reachable count is the RuntimeError of the discovery; with a budget that
  is at least the reachable count the call returns its text, and discovery has visited
  every reachable object once.\<close>

theorem C6_budget:
  assumes "direction_u (direction opts) = Inr d" "d \<in> {''LR'', ''RL'', ''TB'', ''TD'', ''BT''}"
  shows "((\<exists>e. visualize so h root ns opts = Inl e) \<longleftrightarrow>
            (\<forall>n. max_nodes opts = PInt n \<longrightarrow> n \<le> 0 \<or> n < int (card (reach h root))))
    \<and> ((\<forall>n. max_nodes opts = PInt n \<longrightarrow> n \<le> 0) \<longrightarrow>
          visualize so h root ns opts = Inl (ValueError ''max_nodes must be a positive integer''))
    \<and> (\<forall>n. max_nodes opts = PInt n \<and> 0 < n \<and> n < int (card (reach h root)) \<longrightarrow>
          discover h n root = Inl (RuntimeError ''max_nodes exceeded'')
          \<and> visualize so h root ns opts = Inl (RuntimeError ''max_nodes exceeded''))
    \<and> (\<forall>n. max_nodes opts = PInt n \<and> 0 < n \<and> int (card (reach h root)) \<le> n \<longrightarrow>
          (\<exists>out ws vo es. visualize so h root ns opts = Inr (out, ws)
             \<and> discover h n root = Inr (vo, es) \<and> distinct vo \<and> set vo = reach h root))"
proof -
  have invalid: "visualize so h root ns opts = Inl (ValueError ''max_nodes must be a positive integer'')"
    if "\<forall>n. max_nodes opts = PInt n \<longrightarrow> n \<le> 0"
    using visualize_lines_budget_invalid [OF assms, of so h root ns] that
    by (auto intro: visualize_def_Inl)
  have exceeded: "discover h n root = Inl (RuntimeError ''max_nodes exceeded'')
          \<and> visualize so h root ns opts = Inl (RuntimeError ''max_nodes exceeded'')"
    if "max_nodes opts = PInt n \<and> 0 < n \<and> n < int (card (reach h root))" for n
  proof -
    from that have n: "max_nodes opts = PInt n" "0 < n" "n < int (card (reach h root))" by auto
    from discover_succeeds_iff [OF n(2), of h root] n(3)
    obtain e where e: "discover h n root = Inl e" by (cases "discover h n root") auto
    with discover_Inl(1) [OF e] visualize_lines_budget_exceeded [OF assms n, of so ns]
    show ?thesis by (auto intro: visualize_def_Inl)
  qed
  have fine: "\<exists>out ws vo es. visualize so h root ns opts = Inr (out, ws)
             \<and> discover h n root = Inr (vo, es) \<and> distinct vo \<and> set vo = reach h root"
    if "max_nodes opts = PInt n \<and> 0 < n \<and> int (card (reach h root)) \<le> n" for n
  proof -
    from that have n: "max_nodes opts = PInt n" "0 < n" "int (card (reach h root)) \<le> n" by auto
    from visualize_lines_Inr [OF assms n, of so ns] obtain vo es ls ws where
      "discover h n root = Inr (vo, es)" "visualize_lines so h root ns opts = Inr (ls, ws)"
      by blast
    with discover_Inr(1,2) [of h n root vo es] visualize_def_Inr [of so h root ns opts ls ws]
    show ?thesis by blast
  qed
  have iff: "(\<exists>e. visualize so h root ns opts = Inl e) \<longleftrightarrow>
            (\<forall>n. max_nodes opts = PInt n \<longrightarrow> n \<le> 0 \<or> n < int (card (reach h root)))"
  proof (cases "\<exists>n. max_nodes opts = PInt n \<and> 0 < n")
    case False
    then have "\<forall>n. max_nodes opts = PInt n \<longrightarrow> n \<le> 0" by auto
    with invalid show ?thesis by auto
  next
    case True
    then obtain n where n: "max_nodes opts = PInt n" "0 < n" by blast
    show ?thesis
    proof (cases "n < int (card (reach h root))")
      case True
      with exceeded [of n] n show ?thesis by auto
    next
      case False
      with fine [of n] n show ?thesis by auto
    qed
  qed
  from iff invalid exceeded fine show ?thesis by blast
qed

theorem C6_budget_witness:
  "direction_u (direction (options_with (PStr ''LR'') (PInt 3))) = Inr ''LR''
   \<and> ''LR'' \<in> {''LR'', ''RL'', ''TB'', ''TD'', ''BT''}
   \<and> max_nodes (options_with (PStr ''LR'') (PInt 3)) = PInt 3
   \<and> card (reach nested_flows 0) = 4
   \<and> visualize insertion_order nested_flows 0 [] (options_with (PStr ''LR'') (PInt 3))
       = Inl (RuntimeError ''max_nodes exceeded'')
   \<and> \<not> isl (visualize insertion_order nested_flows 0 [] (options_with (PStr ''LR'') (PInt 4)))"
proof -
  have d: "direction_u (direction (options_with (PStr ''LR'') (PInt 3))) = Inr ''LR''"
    by (simp add: options_with_def direction_u_LR)
  have d4: "direction_u (direction (options_with (PStr ''LR'') (PInt 4))) = Inr ''LR''"
    by (simp add: options_with_def direction_u_LR)
  have m: "''LR'' \<in> {''LR'', ''RL'', ''TB'', ''TD'', ''BT''}" by simp
  have "discover nested_flows 1000 0 = Inr ([0, 1, 2, 3], [(1, ''default'', 3)])"
    by code_simp
  from discover_card [OF this] have c: "card (reach nested_flows 0) = 4" by simp
  have n: "max_nodes (options_with (PStr ''LR'') (PInt 3)) = PInt 3"
    "max_nodes (options_with (PStr ''LR'') (PInt 4)) = PInt 4"
    by (simp_all add: options_with_def)
  from C6_budget [OF d m, of insertion_order nested_flows 0 "[]"] n(1) c
  have a: "visualize insertion_order nested_flows 0 [] (options_with (PStr ''LR'') (PInt 3))
       = Inl (RuntimeError ''max_nodes exceeded'')" by simp
  from C6_budget [OF d4 m, of insertion_order nested_flows 0 "[]"] n(2) c
  have "\<exists>out ws. visualize insertion_order nested_flows 0 [] (options_with (PStr ''LR'') (PInt 4))
        = Inr (out, ws)" by auto
  then have b: "\<not> isl (visualize insertion_order nested_flows 0 [] (options_with (PStr ''LR'') (PInt 4)))"
    by auto
  from d m n(1) c a b show ?thesis by simp
qed

text \<open>C7, as stated, fails: the empty string is not one of the five directions, and the
  call accepts it (as LR) and returns its text.\<close>

theorem C7_empty_direction_counterexample:
  "[] \<notin> {''LR'', ''RL'', ''TB'', ''TD'', ''BT''}
   \<and> \<not> isl (visualize insertion_order nested_flows 0 [] (options_with (PStr []) (PInt 1000)))
   \<and> take 2 (fst (projr (visualize_lines insertion_order nested_flows 0 []
                 (options_with (PStr []) (PInt 1000)))))
       = [fence @ ''mermaid'', ''flowchart LR'']"
  by code_simp

text \<open>C7, amended: for every string whose upper-case form is one of LR, RL, TB, TD, BT the
  call succeeds whenever the node budget is a positive integer that is at least the
  number of reachable objects, and the second line of its output is \<^verbatim>\<open>flowchart\<close> followed
  by the upper-case form. Every other string that is not empty is rejected with the
  ValueError of the direction, whatever the graph and the other options (so before any
  traversal). The falsy values (None, the empty string, 0) are outside the set and are not
  rejected: the call treats them as LR.\<close>

theorem C7_direction:
  "(direction opts = PStr s \<and> upper s \<in> {''LR'', ''RL'', ''TB'', ''TD'', ''BT''}
      \<and> max_nodes opts = PInt n \<and> 0 < n \<and> int (card (reach h root)) \<le> n \<longrightarrow>
      (\<exists>L ws. visualize_lines so h root ns opts
                 = Inr ([fence @ ''mermaid'', ''flowchart '' @ upper s] @ L, ws)
         \<and> visualize so h root ns opts
                 = Inr (join_lines ([fence @ ''mermaid'', ''flowchart '' @ upper s] @ L), ws)))
   \<and> (direction opts = PStr s \<and> s \<noteq> [] \<and> upper s \<notin> {''LR'', ''RL'', ''TB'', ''TD'', ''BT''} \<longrightarrow>
        visualize so h root ns opts = Inl (ValueError ''direction must be one of LR/RL/TB/TD/BT''))
   \<and> (direction opts \<in> {PNone, PStr [], PInt 0} \<longrightarrow>
        visualize so h root ns opts = visualize so h root ns (opts\<lparr>direction := PStr ''LR''\<rparr>))"
proof (intro conjI impI)
  assume a: "direction opts = PStr s \<and> upper s \<in> {''LR'', ''RL'', ''TB'', ''TD'', ''BT''}
      \<and> max_nodes opts = PInt n \<and> 0 < n \<and> int (card (reach h root)) \<le> n"
  then have "s \<noteq> []" by (auto simp: upper_def)
  with a have d: "direction_u (direction opts) = Inr (upper s)" by (simp add: direction_u_str)
  from a have u: "upper s \<in> {''LR'', ''RL'', ''TB'', ''TD'', ''BT''}" by simp
  from a have n: "max_nodes opts = PInt n" "0 < n" "int (card (reach h root)) \<le> n" by simp_all
  from visualize_lines_Inr [OF d u n, of so ns] obtain L ws where
    "visualize_lines so h root ns opts = Inr ([fence @ ''mermaid'', ''flowchart '' @ upper s] @ L, ws)"
    by blast
  with visualize_def_Inr [OF this]
  show "\<exists>L ws. visualize_lines so h root ns opts
                 = Inr ([fence @ ''mermaid'', ''flowchart '' @ upper s] @ L, ws)
         \<and> visualize so h root ns opts
                 = Inr (join_lines ([fence @ ''mermaid'', ''flowchart '' @ upper s] @ L), ws)"
    by blast
next
  assume a: "direction opts = PStr s \<and> s \<noteq> [] \<and> upper s \<notin> {''LR'', ''RL'', ''TB'', ''TD'', ''BT''}"
  then have d: "direction_u (direction opts) = Inr (upper s)" by (simp add: direction_u_str)
  from a have u: "upper s \<notin> {''LR'', ''RL'', ''TB'', ''TD'', ''BT''}" by simp
  from visualize_lines_direction_invalid [OF d u, of so h root ns]
  show "visualize so h root ns opts = Inl (ValueError ''direction must be one of LR/RL/TB/TD/BT'')"
    by (rule visualize_def_Inl)
next
  assume "direction opts \<in> {PNone, PStr [], PInt 0}"
  then have "direction_u (direction opts) = direction_u (direction (opts\<lparr>direction := PStr ''LR''\<rparr>))"
    by (simp add: direction_u_falsy direction_u_LR)
  then have "visualize_lines so h root ns opts
           = visualize_lines so h root ns (opts\<lparr>direction := PStr ''LR''\<rparr>)"
    by (rule visualize_lines_direction_cong) simp_all
  then show "visualize so h root ns opts = visualize so h root ns (opts\<lparr>direction := PStr ''LR''\<rparr>)"
    by (simp add: visualize_def)
qed

theorem C7_direction_witness:
  "direction (options_with (PStr ''td'') (PInt 1000)) = PStr ''td''
   \<and> upper ''td'' = ''TD''
   \<and> max_nodes (options_with (PStr ''td'') (PInt 1000)) = PInt 1000
   \<and> card (reach nested_flows 0) = 4
   \<and> take 2 (fst (projr (visualize_lines insertion_order nested_flows 0 []
                 (options_with (PStr ''td'') (PInt 1000)))))
       = [fence @ ''mermaid'', ''flowchart TD'']
   \<and> direction (options_with (PStr ''up'') (PInt 1000)) = PStr ''up''
   \<and> upper ''up'' \<notin> {''LR'', ''RL'', ''TB'', ''TD'', ''BT''}
   \<and> visualize insertion_order nested_flows 0 [] (options_with (PStr ''up'') (PInt 1000))
       = Inl (ValueError ''direction must be one of LR/RL/TB/TD/BT'')"
proof -
  have d: "direction (options_with (PStr ''td'') (PInt 1000)) = PStr ''td''"
    "max_nodes (options_with (PStr ''td'') (PInt 1000)) = PInt 1000"
    "direction (options_with (PStr ''up'') (PInt 1000)) = PStr ''up''"
    by (simp_all add: options_with_def)
  have u: "upper ''td'' = ''TD''" "upper ''up'' \<notin> {''LR'', ''RL'', ''TB'', ''TD'', ''BT''}"
    by code_simp+
  have "discover nested_flows 1000 0 = Inr ([0, 1, 2, 3], [(1, ''default'', 3)])"
    by code_simp
  from discover_card [OF this] have c: "card (reach nested_flows 0) = 4" by simp
  from C7_direction [of "options_with (PStr ''td'') (PInt 1000)" "''td''" 1000 nested_flows 0
      insertion_order "[]"] d u c
  obtain L ws where "visualize_lines insertion_order nested_flows 0 []
        (options_with (PStr ''td'') (PInt 1000)) = Inr ([fence @ ''mermaid'', ''flowchart TD''] @ L, ws)"
    by auto
  then have a: "take 2 (fst (projr (visualize_lines insertion_order nested_flows 0 []
                 (options_with (PStr ''td'') (PInt 1000)))))
       = [fence @ ''mermaid'', ''flowchart TD'']" by simp
  from C7_direction [of "options_with (PStr ''up'') (PInt 1000)" "''up''" 1000 nested_flows 0
      insertion_order "[]"] d u
  have b: "visualize insertion_order nested_flows 0 [] (options_with (PStr ''up'') (PInt 1000))
       = Inl (ValueError ''direction must be one of LR/RL/TB/TD/BT'')" by auto
  from d u c a b show ?thesis by simp
qed

text \<open>C9: no flow without start node is an expanded flow, so none is ever rendered as a
  subgraph block. But such a flow is not always rendered as a node declaration: the
  declaration is written in the block of its container, or at top level when it has no
  container, and a container that is never rendered takes the declaration with it. In
  \<open>orphan_flows\<close> the flow 5 (\<^verbatim>\<open>n4\<close>) has no start node and lies in the body of flow 1;
  flow 1 and flow 3 contain each other, neither is the root and neither is without
  container, so neither is rendered, and no line of the output declares \<^verbatim>\<open>n4\<close>. In
  \<open>delegation_cycle\<close> the flow 2 has no start node and lies in the body of flow 0, which
  is not expanded: nothing is declared at all.\<close>

theorem C9_startless_flow_undeclared:
  "\<not> (start_of h i = None \<and> is_expanded_flow h i)
   \<and> discover orphan_flows 1000 0
       = Inr ([0, 1, 2, 3, 5, 4],
              [(0, ''default'', 1), (2, ''default'', 3), (2, ''skip'', 5), (4, ''default'', 1)])
   \<and> flow_at orphan_flows 5 \<and> start_of orphan_flows 5 = None
   \<and> mermaid_id [0, 1, 2, 3, 5, 4] 5 = Some ''n4''
   \<and> container_flow_by_node_id insertion_order orphan_flows [0, 1, 2, 3, 5, 4] 5 = Some 1
   \<and> container_flow_by_node_id insertion_order orphan_flows [0, 1, 2, 3, 5, 4] 1 = Some 3
   \<and> container_flow_by_node_id insertion_order orphan_flows [0, 1, 2, 3, 5, 4] 3 = Some 1
   \<and> visualize_lines insertion_order orphan_flows 0 [] (options_with (PStr ''LR'') (PInt 1000))
       = Inr ([fence @ ''mermaid'', ''flowchart LR'', ''  start((Start)) --> n0'',
               ''  n0['' @ [dquote] @ ''Flow'' @ [dquote] @ '']'',
               ''  n0 --> n2'',
               ''  classDef pf_true_start stroke:#d33,stroke-width:3px,fill:#fff5f5;'',
               ''  class n2 pf_true_start'', ''  class n5 pf_true_start'', fence],
              [MissingNamespace, MissingName ''Flow'', NoResolvableStart, NoResolvableStart])
   \<and> flow_at delegation_cycle 2 \<and> start_of delegation_cycle 2 = None
   \<and> discover delegation_cycle 1000 0 = Inr ([0, 1, 2], [(1, ''default'', 2)])
   \<and> container_flow_by_node_id insertion_order delegation_cycle [0, 1, 2] 2 = Some 0
   \<and> \<not> is_expanded_flow delegation_cycle 0
   \<and> visualize_lines insertion_order delegation_cycle 0 [] (options_with (PStr ''LR'') (PInt 1000))
       = Inr ([fence @ ''mermaid'', ''flowchart LR'', ''  start((Start)) --> n0'', fence],
              [MissingNamespace, NoResolvableStart, NoResolvableStart, NoResolvableStart])"
proof -
  have a: "\<not> (start_of h i = None \<and> is_expanded_flow h i)"
    by (auto simp: is_expanded_flow_def)
  have b: "discover orphan_flows 1000 0
       = Inr ([0, 1, 2, 3, 5, 4],
              [(0, ''default'', 1), (2, ''default'', 3), (2, ''skip'', 5), (4, ''default'', 1)])"
    by code_simp
  have c: "flow_at orphan_flows 5 \<and> start_of orphan_flows 5 = None
   \<and> mermaid_id [0, 1, 2, 3, 5, 4] 5 = Some ''n4''"
    by code_simp
  have d: "container_flow_by_node_id insertion_order orphan_flows [0, 1, 2, 3, 5, 4] 5 = Some 1
   \<and> container_flow_by_node_id insertion_order orphan_flows [0, 1, 2, 3, 5, 4] 1 = Some 3
   \<and> container_flow_by_node_id insertion_order orphan_flows [0, 1, 2, 3, 5, 4] 3 = Some 1"
    by code_simp
  have e: "visualize_lines insertion_order orphan_flows 0 [] (options_with (PStr ''LR'') (PInt 1000))
       = Inr ([fence @ ''mermaid'', ''flowchart LR'', ''  start((Start)) --> n0'',
               ''  n0['' @ [dquote] @ ''Flow'' @ [dquote] @ '']'',
               ''  n0 --> n2'',
               ''  classDef pf_true_start stroke:#d33,stroke-width:3px,fill:#fff5f5;'',
               ''  class n2 pf_true_start'', ''  class n5 pf_true_start'', fence],
              [MissingNamespace, MissingName ''Flow'', NoResolvableStart, NoResolvableStart])"
    by code_simp
  have f: "flow_at delegation_cycle 2 \<and> start_of delegation_cycle 2 = None
   \<and> discover delegation_cycle 1000 0 = Inr ([0, 1, 2], [(1, ''default'', 2)])"
    by code_simp
  have g: "container_flow_by_node_id insertion_order delegation_cycle [0, 1, 2] 2 = Some 0
   \<and> \<not> is_expanded_flow delegation_cycle 0"
    by code_simp
  have k: "visualize_lines insertion_order delegation_cycle 0 [] (options_with (PStr ''LR'') (PInt 1000))
       = Inr ([fence @ ''mermaid'', ''flowchart LR'', ''  start((Start)) --> n0'', fence],
              [MissingNamespace, NoResolvableStart, NoResolvableStart, NoResolvableStart])"
    by code_simp
  from a b c d e f g k show ?thesis by blast
qed

text \<open>C10: with None or the empty string as direction the call does what it does with
  \<^verbatim>\<open>"LR"\<close>, warnings included; it never raises the errors of a bad direction; when it returns,
  the second line reads \<^verbatim>\<open>flowchart LR\<close>; and it returns whenever the node budget is a
  positive integer that is at least the number of reachable objects.\<close>

theorem C10_falsy_direction:
  assumes "direction opts = PNone \<or> direction opts = PStr []"
  shows "visualize so h root ns opts = visualize so h root ns (opts\<lparr>direction := PStr ''LR''\<rparr>)
    \<and> (\<forall>e. visualize so h root ns opts = Inl e \<longrightarrow>
           e \<noteq> ValueError ''direction must be one of LR/RL/TB/TD/BT'' \<and> e \<noteq> AttributeError)
    \<and> (\<forall>ls ws. visualize_lines so h root ns opts = Inr (ls, ws) \<longrightarrow>
           (\<exists>L. ls = [fence @ ''mermaid'', ''flowchart LR''] @ L))
    \<and> (\<forall>n. max_nodes opts = PInt n \<and> 0 < n \<and> int (card (reach h root)) \<le> n \<longrightarrow>
           (\<exists>L ws. visualize_lines so h root ns opts
                      = Inr ([fence @ ''mermaid'', ''flowchart LR''] @ L, ws)
              \<and> visualize so h root ns opts
                      = Inr (join_lines ([fence @ ''mermaid'', ''flowchart LR''] @ L), ws)))"
proof -
  from assms have d: "direction_u (direction opts) = Inr ''LR''"
    by (auto simp: direction_u_falsy)
  have m: "''LR'' \<in> {''LR'', ''RL'', ''TB'', ''TD'', ''BT''}" by simp
  have same: "visualize so h root ns opts = visualize so h root ns (opts\<lparr>direction := PStr ''LR''\<rparr>)"
  proof -
    have "direction_u (direction opts) = direction_u (direction (opts\<lparr>direction := PStr ''LR''\<rparr>))"
      using d by (simp add: direction_u_LR)
    then have "visualize_lines so h root ns opts
             = visualize_lines so h root ns (opts\<lparr>direction := PStr ''LR''\<rparr>)"
      by (rule visualize_lines_direction_cong) simp_all
    then show ?thesis by (simp add: visualize_def)
  qed
  have fine: "\<exists>L ws. visualize_lines so h root ns opts
                      = Inr ([fence @ ''mermaid'', ''flowchart LR''] @ L, ws)
              \<and> visualize so h root ns opts
                      = Inr (join_lines ([fence @ ''mermaid'', ''flowchart LR''] @ L), ws)"
    if "max_nodes opts = PInt n \<and> 0 < n \<and> int (card (reach h root)) \<le> n" for n
  proof -
    from that have n: "max_nodes opts = PInt n" "0 < n" "int (card (reach h root)) \<le> n" by auto
    from visualize_lines_Inr [OF d m n, of so ns] obtain L ws where
      "visualize_lines so h root ns opts = Inr ([fence @ ''mermaid'', ''flowchart LR''] @ L, ws)"
      by auto
    with visualize_def_Inr [OF this] show ?thesis by blast
  qed
  have header: "\<exists>L. ls = [fence @ ''mermaid'', ''flowchart LR''] @ L"
    if "visualize_lines so h root ns opts = Inr (ls, ws)" for ls ws
  proof -
    from visualize_lines_InrD [OF d m that] obtain n where
      "max_nodes opts = PInt n \<and> 0 < n \<and> int (card (reach h root)) \<le> n" by blast
    from fine [OF this] that show ?thesis by auto
  qed
  have errors: "e \<noteq> ValueError ''direction must be one of LR/RL/TB/TD/BT'' \<and> e \<noteq> AttributeError"
    if e: "visualize so h root ns opts = Inl e" for e
  proof (cases "\<exists>n. max_nodes opts = PInt n \<and> 0 < n")
    case False
    then have "\<And>n. max_nodes opts = PInt n \<Longrightarrow> n \<le> 0" by auto
    from visualize_lines_budget_invalid [OF d m this, of so h root ns] e
    have "e = ValueError ''max_nodes must be a positive integer''" by (simp add: visualize_def)
    then show ?thesis by simp
  next
    case True
    then obtain n where n: "max_nodes opts = PInt n" "0 < n" by blast
    show ?thesis
    proof (cases "n < int (card (reach h root))")
      case True
      from visualize_lines_budget_exceeded [OF d m n True, of so ns] e
      have "e = RuntimeError ''max_nodes exceeded''" by (simp add: visualize_def)
      then show ?thesis by simp
    next
      case False
      with fine [of n] n e show ?thesis by auto
    qed
  qed
  from same errors header fine show ?thesis by blast
qed

theorem C10_falsy_direction_witness:
  "(direction (options_with PNone (PInt 1000)) = PNone
      \<or> direction (options_with PNone (PInt 1000)) = PStr [])
   \<and> max_nodes (options_with PNone (PInt 1000)) = PInt 1000
   \<and> card (reach nested_flows 0) = 4
   \<and> \<not> isl (visualize insertion_order nested_flows 0 [] (options_with PNone (PInt 1000)))
   \<and> take 2 (fst (projr (visualize_lines insertion_order nested_flows 0 []
                 (options_with PNone (PInt 1000)))))
       = [fence @ ''mermaid'', ''flowchart LR'']"
proof -
  have d: "direction (options_with PNone (PInt 1000)) = PNone
      \<or> direction (options_with PNone (PInt 1000)) = PStr []"
    and n: "max_nodes (options_with PNone (PInt 1000)) = PInt 1000"
    by (simp_all add: options_with_def)
  have "discover nested_flows 1000 0 = Inr ([0, 1, 2, 3], [(1, ''default'', 3)])"
    by code_simp
  from discover_card [OF this] have c: "card (reach nested_flows 0) = 4" by simp
  from C10_falsy_direction [OF d, of insertion_order nested_flows 0 "[]"] n c
  obtain L ws where
    "visualize_lines insertion_order nested_flows 0 [] (options_with PNone (PInt 1000))
       = Inr ([fence @ ''mermaid'', ''flowchart LR''] @ L, ws)"
    "visualize insertion_order nested_flows 0 [] (options_with PNone (PInt 1000))
       = Inr (join_lines ([fence @ ''mermaid'', ''flowchart LR''] @ L), ws)"
    by auto
  with d n c show ?thesis by simp
qed

end
